theory Spec2Isabelle
  imports Main "HOL-Library.Word" "HOL-Library.Signed_Division"
begin

section \<open>Data model\<close>

text \<open>
  Go strings are byte sequences: they are modelled as \<open>string\<close> (a list of 8-bit
  characters). A Go \<open>byte\<close> used as a number is an \<open>8 word\<close>, so that \<open>-\<close> wraps
  around as it does in Go. A Go \<open>int\<close> is modelled as \<open>int\<close>: the only arithmetic on
  it is \<open>n + 1\<close> with \<open>n \<le> 61\<close> and products bounded by a few thousands, far from
  the 64-bit limits. Loop indices start at 0 and only grow: they are \<open>nat\<close>.
\<close>

type_synonym byte = "8 word"

text \<open>The run-time panics the source can raise.\<close>

datatype panic =
    BadValue          \<comment> \<open>\<open>panic("bad value")\<close> in \<open>byteToOrder\<close>\<close>
  | Todo              \<comment> \<open>\<open>panic("TODO")\<close> in \<open>minorRanks\<close>\<close>
  | DivideByZero      \<comment> \<open>integer divide by zero\<close>
  | IndexOutOfRange   \<comment> \<open>index out of range on \<open>orderToByte[k]\<close>\<close>
  | SliceOutOfRange   \<comment> \<open>slice bounds out of range on \<open>s[:k]\<close>\<close>
  | MakeLenOutOfRange \<comment> \<open>\<open>make([]T, n)\<close> with negative \<open>n\<close>\<close>

record Posn =
  Bucket :: byte
  Major :: string
  Minor :: string

definition orderToByte :: string where
  "orderToByte = ''0123456789ABCDEFGHIJKLMNOPQRSTUVWXYZabcdefghijklmnopqrstuvwxyz''"

definition minChar :: char where
  "minChar = CHR ''0''"

definition maxChar :: char where
  "maxChar = CHR ''z''"

definition MaxMultiRank :: int where
  "MaxMultiRank = 10 + 26 + 26 - 1"

definition trailer :: string where
  "trailer = ''UUUUUUUU''"

section \<open>Alphabet codec\<close>

text \<open>\<open>_byteToOrder\<close> of lexorank.go (an Isabelle name cannot start with an underscore).\<close>

definition under_byteToOrder :: "char \<Rightarrow> byte" where
  "under_byteToOrder c =
     (let b = (of_char c :: byte) in
      if b \<ge> of_char CHR ''0'' \<and> b \<le> of_char CHR ''9'' then b - of_char CHR ''0''
      else if b \<ge> of_char CHR ''A'' \<and> b \<le> of_char CHR ''Z'' then b - of_char CHR ''A'' + 10
      else if b \<ge> of_char CHR ''a'' \<and> b \<le> of_char CHR ''z'' then b - of_char CHR ''a'' + 10 + 26
      else if b < of_char CHR ''A'' then 0
      else 10 + 26 + 26 - 1)"

definition byteToOrder :: "char \<Rightarrow> panic + byte" where
  "byteToOrder b =
     (let n = under_byteToOrder b in
      if n < 0 \<or> n > 62 then Inl BadValue else Inr n)"

text \<open>Indexing the constant string \<open>orderToByte\<close> with an \<open>int\<close>: Go panics out of range.\<close>

definition orderToByte_at :: "int \<Rightarrow> panic + char" where
  "orderToByte_at k =
     (if 0 \<le> k \<and> k < int (length orderToByte) then Inr (orderToByte ! nat k)
      else Inl IndexOutOfRange)"

definition getChar :: "string \<Rightarrow> nat \<Rightarrow> char \<Rightarrow> char" where
  "getChar s i defaultChar = (if i \<ge> length s then defaultChar else s ! i)"

text \<open>Slicing \<open>s[:k]\<close>: Go panics unless \<open>0 \<le> k \<le> len(s)\<close>.\<close>

definition slice_to :: "string \<Rightarrow> int \<Rightarrow> panic + string" where
  "slice_to s k =
     (if 0 \<le> k \<and> k \<le> int (length s) then Inr (take (nat k) s) else Inl SliceOutOfRange)"

text \<open>
  The conversion \<open>string(b)\<close> of a byte \<open>b\<close>: Go converts an integer to the UTF-8
  encoding of the code point with that number, so a byte below 128 gives the
  one-byte string and a byte \<open>v\<close> from 128 to 255 gives the two bytes
  \<open>0xC0 | (v >> 6)\<close> and \<open>0x80 | (v & 0x3F)\<close>.
\<close>

definition string_of_byte :: "char \<Rightarrow> string" where
  "string_of_byte c =
     (let v = (of_char c :: nat) in
      if v < 128 then [c]
      else [char_of (192 + v div 64), char_of (128 + v mod 64)])"

section \<open>Interval splitter (lexorank.go)\<close>

text \<open>
  The filling loop of \<open>mids\<close>, \<open>for i := 0; i < n; i++ { ch[i] = orderToByte[...] }\<close>:
  the first index out of range panics, otherwise the \<open>n\<close> bytes are returned in order.
\<close>

fun mids_fill :: "int \<Rightarrow> int \<Rightarrow> nat list \<Rightarrow> panic + string" where
  "mids_fill prevo per [] = Inr []"
| "mids_fill prevo per (i # is) =
     (case orderToByte_at (prevo + per * (int i + 1)) of
        Inl e \<Rightarrow> Inl e
      | Inr c \<Rightarrow> (case mids_fill prevo per is of Inl e \<Rightarrow> Inl e | Inr cs \<Rightarrow> Inr (c # cs)))"

text \<open>
  \<open>mids\<close> returns \<open>Inr None\<close> for \<open>(nil, false)\<close> and \<open>Inr (Some ch)\<close> for \<open>(ch, true)\<close>.
  The difference \<open>nexto - prevo\<close> is a byte subtraction; \<open>/\<close> truncates towards zero
  and panics on a zero divisor.
\<close>

definition mids :: "int \<Rightarrow> char \<Rightarrow> char \<Rightarrow> panic + string option" where
  "mids n prev next =
     (case byteToOrder prev of Inl e \<Rightarrow> Inl e | Inr prevo \<Rightarrow>
      case byteToOrder next of Inl e \<Rightarrow> Inl e | Inr nexto \<Rightarrow>
      if n + 1 = 0 then Inl DivideByZero
      else
        let per = uint (nexto - prevo) sdiv (n + 1) in
        if per < 1 then Inr None
        else if n < 0 then Inl MakeLenOutOfRange
        else (case mids_fill (uint prevo) per [0..<nat n] of
                Inl e \<Rightarrow> Inl e
              | Inr ch \<Rightarrow> Inr (Some ch)))"

definition minorRanks :: "int \<Rightarrow> Posn \<Rightarrow> Posn \<Rightarrow> panic + Posn list \<times> bool" where
  "minorRanks n prev next = Inl Todo"

text \<open>
  One iteration of the \<open>for { ... }\<close> loop of \<open>majorRanks\<close>. The loop state is the
  two (copied) bounds, whose \<open>Major\<close> the loop rewrites, the accumulated \<open>rank\<close> and
  the index \<open>i\<close>. An iteration ends in \<open>continue\<close> with a new state, in \<open>return\<close>
  or in a panic. A nil slice is the empty list. The trace that \<open>majorRanks\<close> and
  \<open>mids\<close> print with \<open>fmt.Printf\<close> does not reach the result and is left out.
\<close>

datatype iteration =
    Continue Posn Posn string nat
  | Return "panic + Posn list \<times> bool"

definition majorStep :: "int \<Rightarrow> nat \<Rightarrow> Posn \<Rightarrow> Posn \<Rightarrow> string \<Rightarrow> nat \<Rightarrow> iteration" where
  "majorStep n majorLen prev next rank i =
     (let prevChar = getChar (Major prev) i minChar;
          nextChar = getChar (Major next) i maxChar
      in
      if prevChar = nextChar then Continue prev next (rank @ string_of_byte prevChar) (i + 1)
      else
        case mids n prevChar nextChar of
          Inl e \<Rightarrow> Return (Inl e)
        | Inr None \<Rightarrow>
            (case byteToOrder (getChar (Major prev) (i + 1) minChar) of
               Inl e \<Rightarrow> Return (Inl e)
             | Inr prevAfter \<Rightarrow>
            (case byteToOrder (getChar (Major next) (i + 1) maxChar) of
               Inl e \<Rightarrow> Return (Inl e)
             | Inr nextAfter \<Rightarrow>
                 let spaceAfterPrev = (word_of_int MaxMultiRank :: byte) - prevAfter;
                     spaceBeforeNext = nextAfter
                 in
                 if spaceAfterPrev > spaceBeforeNext then
                   (case slice_to (Major next) (int i) of
                      Inl e \<Rightarrow> Return (Inl e)
                    | Inr pre \<Rightarrow>
                        Continue prev (next\<lparr>Major := pre @ string_of_byte prevChar\<rparr>)
                          (rank @ string_of_byte prevChar) (i + 1))
                 else
                   (case slice_to (Major prev) (int i) of
                      Inl e \<Rightarrow> Return (Inl e)
                    | Inr pre \<Rightarrow>
                        Continue (prev\<lparr>Major := pre @ string_of_byte nextChar\<rparr>) next
                          (rank @ string_of_byte nextChar) (i + 1))))
        | Inr (Some midChars) \<Rightarrow>
            if length rank = majorLen then Return (Inr ([], False))
            else
              (case slice_to trailer (int majorLen - 1 - int (length rank)) of
                 Inl e \<Rightarrow> Return (Inl e)
               | Inr tr \<Rightarrow>
                   Return (Inr (map (\<lambda>mid. \<lparr>Bucket = Bucket prev,
                                             Major = rank @ string_of_byte mid @ tr,
                                             Minor = '':''\<rparr>) midChars, True))))"

text \<open>
  The loop itself. The first argument is fuel: one unit per iteration, \<open>None\<close> when
  it runs out, so that \<open>majorLoop k \<dots> \<noteq> None\<close> says that the loop ends within \<open>k\<close>
  iterations.
\<close>

fun majorLoop ::
  "nat \<Rightarrow> int \<Rightarrow> nat \<Rightarrow> Posn \<Rightarrow> Posn \<Rightarrow> string \<Rightarrow> nat \<Rightarrow> (panic + Posn list \<times> bool) option"
where
  "majorLoop 0 n majorLen prev next rank i = None"
| "majorLoop (Suc fuel) n majorLen prev next rank i =
     (case majorStep n majorLen prev next rank i of
        Return r \<Rightarrow> Some r
      | Continue prev' next' rank' i' \<Rightarrow> majorLoop fuel n majorLen prev' next' rank' i')"

text \<open>
  The state of the loop (the two bounds, the prefix built so far and the index) after
  \<open>k\<close> iterations that all continue; \<open>None\<close> when one of them returns.
\<close>

fun majorIterate ::
  "nat \<Rightarrow> int \<Rightarrow> nat \<Rightarrow> Posn \<Rightarrow> Posn \<Rightarrow> string \<Rightarrow> nat \<Rightarrow> (Posn \<times> Posn \<times> string \<times> nat) option"
where
  "majorIterate 0 n majorLen prev next rank i = Some (prev, next, rank, i)"
| "majorIterate (Suc k) n majorLen prev next rank i =
     (case majorStep n majorLen prev next rank i of
        Return r \<Rightarrow> None
      | Continue prev' next' rank' i' \<Rightarrow> majorIterate k n majorLen prev' next' rank' i')"

definition majorRanks ::
  "nat \<Rightarrow> int \<Rightarrow> Posn \<Rightarrow> Posn \<Rightarrow> (panic + Posn list \<times> bool) option" where
  "majorRanks fuel n prev next =
     majorLoop fuel n (max (length (Major prev)) (length (Major next))) prev next [] 0"

text \<open>
  \<open>Ranks\<close>: a nil pointer is \<open>None\<close>. The two blocks that replace a nil bound are
  \<open>prev_or_default\<close> and \<open>next_or_default\<close>. When \<open>next\<close> is nil the source tests
  \<open>prev != nil\<close> after \<open>prev\<close> has been replaced, so the new upper bound always takes
  the bucket of the (possibly substituted) lower bound.
\<close>

definition prev_or_default :: "Posn option \<Rightarrow> Posn option \<Rightarrow> Posn" where
  "prev_or_default prev next =
     (case prev of
        Some p \<Rightarrow> p
      | None \<Rightarrow> \<lparr>Bucket = (case next of Some q \<Rightarrow> Bucket q | None \<Rightarrow> 0),
                 Major = ''000000'', Minor = '':''\<rparr>)"

definition next_or_default :: "Posn \<Rightarrow> Posn option \<Rightarrow> Posn" where
  "next_or_default prev1 next =
     (case next of
        Some q \<Rightarrow> q
      | None \<Rightarrow> \<lparr>Bucket = Bucket prev1, Major = ''zzzzzz'', Minor = '':''\<rparr>)"

definition Ranks ::
  "nat \<Rightarrow> int \<Rightarrow> Posn option \<Rightarrow> Posn option \<Rightarrow> (panic + Posn list \<times> bool) option" where
  "Ranks fuel n prev next =
     (if n > MaxMultiRank then Some (Inr ([], False))
      else
        let prev1 = prev_or_default prev next;
            next1 = next_or_default prev1 next
        in
        if Major prev1 \<noteq> Major next1 then
          (case majorRanks fuel n prev1 next1 of
             None \<Rightarrow> None
           | Some (Inl e) \<Rightarrow> Some (Inl e)
           | Some (Inr (p, ok)) \<Rightarrow>
               if ok then Some (Inr (p, True)) else Some (minorRanks n prev1 next1))
        else Some (minorRanks n prev1 next1))"

section \<open>The simple variant (second source file)\<close>

text \<open>
  The second source file declares the same package with \<open>byteToOrder\<close>, \<open>mids\<close> and
  \<open>Ranks\<close> over plain strings; its functions carry the prefix \<open>simple\<close> here. Its
  \<open>getChar\<close> and constants are identical to the ones above.
\<close>

definition simple_byteToOrder :: "char \<Rightarrow> byte" where
  "simple_byteToOrder c =
     (let b = (of_char c :: byte) in
      if b \<ge> of_char CHR ''0'' \<and> b \<le> of_char CHR ''9'' then b - of_char CHR ''0''
      else if b \<ge> of_char CHR ''A'' \<and> b \<le> of_char CHR ''Z'' then b - of_char CHR ''A'' + 10
      else if b \<ge> of_char CHR ''a'' \<and> b \<le> of_char CHR ''z'' then b - of_char CHR ''a'' + 10 + 26
      else if b < of_char CHR ''A'' then 0
      else 10 + 26 + 26 - 1)"

definition simple_mids :: "int \<Rightarrow> char \<Rightarrow> char \<Rightarrow> panic + string option" where
  "simple_mids n prev next =
     (let prevo = simple_byteToOrder prev;
          nexto = simple_byteToOrder next
      in
      if n + 1 = 0 then Inl DivideByZero
      else
        let per = uint (nexto - prevo) sdiv (n + 1) in
        if per < 1 then Inr None
        else if n < 0 then Inl MakeLenOutOfRange
        else (case mids_fill (uint prevo) per [0..<nat n] of
                Inl e \<Rightarrow> Inl e
              | Inr ch \<Rightarrow> Inr (Some ch)))"

fun simple_loop ::
  "nat \<Rightarrow> int \<Rightarrow> string \<Rightarrow> string \<Rightarrow> string \<Rightarrow> nat \<Rightarrow> (panic + string list \<times> bool) option"
where
  "simple_loop 0 n prev next rank i = None"
| "simple_loop (Suc fuel) n prev next rank i =
     (let prevChar = getChar prev i minChar;
          nextChar = getChar next i maxChar
      in
      if prevChar = nextChar then
        simple_loop fuel n prev next (rank @ string_of_byte prevChar) (i + 1)
      else
        case simple_mids n prevChar nextChar of
          Inl e \<Rightarrow> Some (Inl e)
        | Inr None \<Rightarrow> simple_loop fuel n prev next (rank @ string_of_byte prevChar) (i + 1)
        | Inr (Some midChars) \<Rightarrow>
            Some (Inr (map (\<lambda>mid. rank @ string_of_byte mid) midChars, True)))"

definition simple_Ranks ::
  "nat \<Rightarrow> int \<Rightarrow> string \<Rightarrow> string \<Rightarrow> (panic + string list \<times> bool) option" where
  "simple_Ranks fuel n prev next =
     (if n > MaxMultiRank then Some (Inr ([], False))
      else
        let prev1 = (if prev = [] then string_of_byte minChar else prev);
            next1 = (if next = [] then string_of_byte maxChar else next)
        in simple_loop fuel n prev1 next1 [] 0)"

section \<open>External format adapter\<close>

text \<open>\<open>fmt.Sprintf("%d", b)\<close> for a byte: its decimal digits, no padding.\<close>

definition digit_char :: "nat \<Rightarrow> char" where
  "digit_char d = char_of (of_char CHR ''0'' + d)"

definition format_d :: "byte \<Rightarrow> string" where
  "format_d b =
     (let v = unat b in
      if v < 10 then [digit_char v]
      else if v < 100 then [digit_char (v div 10), digit_char (v mod 10)]
      else [digit_char (v div 100), digit_char (v div 10 mod 10), digit_char (v mod 10)])"

definition Posn_String :: "Posn \<Rightarrow> string" where
  "Posn_String p = format_d (Bucket p) @ ''|'' @ Major p @ Minor p"

text \<open>The character class \<open>[0-9a-z]\<close> of the regular expression.\<close>

definition class_09az :: "char \<Rightarrow> bool" where
  "class_09az c =
     (let b = (of_char c :: byte) in
      (of_char CHR ''0'' \<le> b \<and> b \<le> of_char CHR ''9'') \<or>
      (of_char CHR ''a'' \<le> b \<and> b \<le> of_char CHR ''z''))"

text \<open>
  \<open>jiraRank.FindStringSubmatch\<close> for the anchored expression
  \<^verbatim>\<open>^([012])\|([0-9a-z]+)(:[0-9a-z]*)?$\<close>. The expression is anchored at both ends
  and the separator \<open>:\<close> is outside the class, so the second group is the longest run
  of class characters after the bar, and what follows is either nothing (the third
  group does not take part and is reported as the empty string) or \<open>:\<close> and class
  characters up to the end of the text. The result lists the whole match and the three
  groups; \<open>None\<close> is Go's nil.
\<close>

definition jiraRank_FindStringSubmatch :: "string \<Rightarrow> string list option" where
  "jiraRank_FindStringSubmatch s =
     (case s of
        b # bar # rest \<Rightarrow>
          if (b = CHR ''0'' \<or> b = CHR ''1'' \<or> b = CHR ''2'') \<and> bar = CHR ''|'' then
            (let major = takeWhile class_09az rest;
                 after = dropWhile class_09az rest
             in
             if major = [] then None
             else
               (case after of
                  [] \<Rightarrow> Some [s, [b], major, []]
                | c # minor \<Rightarrow>
                    if c = CHR '':'' \<and> list_all class_09az minor
                    then Some [s, [b], major, after]
                    else None))
          else None
      | _ \<Rightarrow> None)"

definition ParseJira :: "string \<Rightarrow> Posn \<times> bool" where
  "ParseJira rank =
     (case jiraRank_FindStringSubmatch rank of
        None \<Rightarrow> (\<lparr>Bucket = 0, Major = [], Minor = []\<rparr>, False)
      | Some m \<Rightarrow>
          (\<lparr>Bucket = of_char (m ! 1 ! 0) - of_char CHR ''0'',
            Major = m ! 2,
            Minor = m ! 3\<rparr>, True))"

section \<open>Orderings used by the properties\<close>

text \<open>
  Go compares strings byte by byte, a proper prefix sorting first. Positions compare by
  bucket, then major, then minor.
\<close>

fun bytes_less :: "string \<Rightarrow> string \<Rightarrow> bool" where
  "bytes_less [] [] = False"
| "bytes_less [] (y # ys) = True"
| "bytes_less (x # xs) [] = False"
| "bytes_less (x # xs) (y # ys) =
     ((of_char x :: nat) < of_char y \<or> (x = y \<and> bytes_less xs ys))"

definition Posn_less :: "Posn \<Rightarrow> Posn \<Rightarrow> bool" where
  "Posn_less p q =
     (Bucket p < Bucket q \<or>
      (Bucket p = Bucket q \<and>
       (bytes_less (Major p) (Major q) \<or>
        (Major p = Major q \<and> bytes_less (Minor p) (Minor q)))))"

text \<open>The 62-symbol alphabet of the specification, and the bytes below 128.\<close>

definition alphabet :: "char \<Rightarrow> bool" where
  "alphabet c = (c \<in> set orderToByte)"

definition is_ascii :: "char \<Rightarrow> bool" where
  "is_ascii c = ((of_char c :: nat) < 128)"

section \<open>Invariants of the loop\<close>

text \<open>
  What the loop of \<open>majorRanks\<close> keeps about the common prefix \<open>rank\<close> it has built after
  \<open>i\<close> iterations, for the bounds \<open>lo\<close> and \<open>hi\<close> the call was given: either the bound is
  still the one of the call and \<open>rank\<close> is its prefix, or the bound was rewritten, is
  used up, and \<open>rank\<close> already sorts on the right side of the prefix of the original.
\<close>

definition low_ok :: "string \<Rightarrow> Posn \<Rightarrow> string \<Rightarrow> nat \<Rightarrow> bool" where
  "low_ok lo prev rank i =
     ((Major prev = lo \<and> rank = take i lo) \<or>
      (length (Major prev) \<le> i \<and> bytes_less (take i lo) rank))"

definition up_ok :: "string \<Rightarrow> Posn \<Rightarrow> string \<Rightarrow> nat \<Rightarrow> bool" where
  "up_ok hi next rank i =
     ((Major next = hi \<and> rank = take i hi) \<or>
      (length (Major next) \<le> i \<and> bytes_less rank (take i hi)))"

section \<open>The alphabet codec\<close>

lemma under_byteToOrder_le: "under_byteToOrder c \<le> 61"
  unfolding under_byteToOrder_def Let_def
  by (simp; unat_arith)

text \<open>The range check of \<open>byteToOrder\<close> never fires: the ordinal is at most 61.\<close>

lemma byteToOrder_total: "byteToOrder c = Inr (under_byteToOrder c)"
proof -
  have "under_byteToOrder c \<le> 61" by (rule under_byteToOrder_le)
  then have "\<not> under_byteToOrder c > 62" by unat_arith
  then show ?thesis by (simp add: byteToOrder_def Let_def)
qed

lemma uint_order_le: "uint (under_byteToOrder c) \<le> 61"
  using under_byteToOrder_le[of c] by (simp add: word_le_def)

lemma order_minChar: "under_byteToOrder minChar = 0"
  by (simp add: under_byteToOrder_def minChar_def)

lemma order_maxChar: "under_byteToOrder maxChar = 61"
  by (simp add: under_byteToOrder_def maxChar_def)

lemma min_ne_max: "minChar \<noteq> maxChar"
  by (simp add: minChar_def maxChar_def)

text \<open>The conversion \<open>string(b)\<close> is the identity on ASCII and UTF-8 above.\<close>

lemma string_of_byte_ascii: "is_ascii c \<Longrightarrow> string_of_byte c = [c]"
  by (simp add: string_of_byte_def is_ascii_def)

lemma string_of_byte_201:
  "string_of_byte (char_of (201::nat)) = [char_of (195::nat), char_of (137::nat)]"
  by code_simp

lemma is_ascii_minChar: "is_ascii minChar"
  by (simp add: is_ascii_def minChar_def)

lemma is_ascii_maxChar: "is_ascii maxChar"
  by (simp add: is_ascii_def maxChar_def)

lemma string_of_minChar: "string_of_byte minChar = [minChar]"
  by (simp add: string_of_byte_ascii is_ascii_minChar)

lemma string_of_maxChar: "string_of_byte maxChar = [maxChar]"
  by (simp add: string_of_byte_ascii is_ascii_maxChar)

lemma orderToByte_ascii: "list_all is_ascii orderToByte"
  by (simp add: orderToByte_def is_ascii_def)

lemma orderToByte_at_ascii: "orderToByte_at k = Inr c \<Longrightarrow> is_ascii c"
proof -
  assume "orderToByte_at k = Inr c"
  then have "c \<in> set orderToByte"
    by (auto simp: orderToByte_at_def split: if_splits)
  then show ?thesis using orderToByte_ascii by (simp add: list_all_iff)
qed

section \<open>Characters and slices\<close>

lemma getChar_ascii: "list_all is_ascii s \<Longrightarrow> is_ascii d \<Longrightarrow> is_ascii (getChar s k d)"
  by (simp add: getChar_def list_all_length)

lemma getChar_prefix: "k < length p \<Longrightarrow> getChar (p @ s) k d = p ! k"
  by (simp add: getChar_def nth_append)

lemma getChar_at_prefix_end: "getChar (p @ c # s) (length p) d = c"
  by (simp add: getChar_def)

lemma getChar_beyond: "length s \<le> k \<Longrightarrow> getChar s k d = d"
  by (simp add: getChar_def)

lemma map_getChar_prefix: "map (\<lambda>k. getChar (p @ s) k d) [0..<length p] = p"
proof -
  have "map (\<lambda>k. getChar (p @ s) k d) [0..<length p] = map (\<lambda>k. p ! k) [0..<length p]"
    by (rule map_cong) (simp_all add: getChar_prefix)
  then show ?thesis by (simp add: map_nth)
qed

lemma slice_to_prefix: "slice_to (p @ s) (int (length p)) = Inr p"
  by (simp add: slice_to_def)

lemma slice_trailer_0: "slice_to trailer 0 = Inr []"
  by (simp add: slice_to_def)

lemma slice_trailer_long: "8 < k \<Longrightarrow> slice_to trailer k = Inl SliceOutOfRange"
  by (simp add: slice_to_def trailer_def)



section \<open>What \<open>mids\<close> computes\<close>

lemma sdiv_nonneg: "0 \<le> a \<Longrightarrow> 0 < b \<Longrightarrow> (a::int) sdiv b = a div b"
  by (simp add: signed_divide_int_def sgn_if)

lemma mids_same: "mids n a a \<noteq> Inr (Some cs)"
  by (simp add: mids_def byteToOrder_total signed_divide_int_def)



text \<open>The two source files compute the same \<open>mids\<close>.\<close>

lemma simple_mids_eq: "simple_mids n a b = mids n a b"
  by (simp add: simple_mids_def mids_def byteToOrder_total simple_byteToOrder_def
      under_byteToOrder_def Let_def)

lemma mids_fill_ok:
  "(\<And>i. i \<in> set js \<Longrightarrow> 0 \<le> prevo + per * (int i + 1) \<and> prevo + per * (int i + 1) < 62)
   \<Longrightarrow> \<exists>cs. mids_fill prevo per js = Inr cs \<and> length cs = length js"
proof (induction js)
  case Nil
  then show ?case by simp
next
  case (Cons j js)
  have "0 \<le> prevo + per * (int j + 1) \<and> prevo + per * (int j + 1) < 62"
    using Cons.prems[of j] by simp
  then obtain c where c: "orderToByte_at (prevo + per * (int j + 1)) = Inr c"
    by (simp add: orderToByte_at_def orderToByte_def)
  obtain cs where "mids_fill prevo per js = Inr cs \<and> length cs = length js"
    using Cons.IH Cons.prems by auto
  then show ?case using c by simp
qed

lemma mids_fill_length: "mids_fill prevo per js = Inr cs \<Longrightarrow> length cs = length js"
  by (induction js arbitrary: cs) (auto split: sum.splits)

lemma mids_fill_nth:
  "mids_fill prevo per js = Inr cs \<Longrightarrow> j < length js \<Longrightarrow>
   orderToByte_at (prevo + per * (int (js ! j) + 1)) = Inr (cs ! j)"
proof (induction js arbitrary: cs j)
  case Nil
  then show ?case by simp
next
  case (Cons x xs)
  then show ?case
    by (cases j) (auto split: sum.splits)
qed

lemma mids_fill_ascii: "mids_fill prevo per js = Inr cs \<Longrightarrow> list_all is_ascii cs"
  by (induction js arbitrary: cs) (auto split: sum.splits dest: orderToByte_at_ascii)

lemma mids_ascii: "mids n a b = Inr (Some cs) \<Longrightarrow> list_all is_ascii cs"
  by (auto simp: mids_def byteToOrder_total Let_def split: if_splits sum.splits
      dest: mids_fill_ascii)

lemma mids_length: "mids n a b = Inr (Some cs) \<Longrightarrow> length cs = nat n"
  by (auto simp: mids_def byteToOrder_total Let_def split: if_splits sum.splits
      dest: mids_fill_length)

lemma mids_nth:
  assumes "mids n a b = Inr (Some cs)" and "j < nat n"
  shows "orderToByte_at (uint (under_byteToOrder a)
            + (uint (under_byteToOrder b - under_byteToOrder a) sdiv (n + 1)) * (int j + 1))
         = Inr (cs ! j)"
proof -
  from assms(1) have
    "mids_fill (uint (under_byteToOrder a))
       (uint (under_byteToOrder b - under_byteToOrder a) sdiv (n + 1)) [0..<nat n] = Inr cs"
    by (auto simp: mids_def byteToOrder_total Let_def split: if_splits sum.splits)
  from mids_fill_nth[OF this, of j] assms(2) show ?thesis by simp
qed

lemma div_times_le:
  assumes "0 \<le> d" and "0 < k" and "0 \<le> j" and "j \<le> k"
  shows "0 \<le> (d div k) * j \<and> (d div k) * j \<le> (d::int)"
proof -
  have q: "0 \<le> d div k" using assms(1,2) by (simp add: pos_imp_zdiv_nonneg_iff)
  have "(d div k) * j \<le> (d div k) * k"
    using q assms(4) by (rule mult_left_mono[rotated])
  also have "\<dots> \<le> d"
    using assms(2) by (metis div_mult_mod_eq pos_mod_sign le_add_same_cancel1)
  finally show ?thesis using q assms(3) by simp
qed

text \<open>No room: the difference of the ordinals is below \<open>n + 1\<close>.\<close>

lemma mids_no_room:
  assumes "0 \<le> n" and "uint (under_byteToOrder b - under_byteToOrder a) < n + 1"
  shows "mids n a b = Inr None"
proof -
  have "uint (under_byteToOrder b - under_byteToOrder a) div (n + 1) = 0"
    using assms by (simp add: div_pos_pos_trivial)
  then show ?thesis
    using assms(1) by (simp add: mids_def byteToOrder_total sdiv_nonneg)
qed

text \<open>Room: the ordinals are in order and at least \<open>n + 1\<close> apart.\<close>

lemma mids_room:
  assumes "0 \<le> n" and "under_byteToOrder a \<le> under_byteToOrder b"
      and "n + 1 \<le> uint (under_byteToOrder b - under_byteToOrder a)"
  shows "\<exists>cs. mids n a b = Inr (Some cs)"
proof -
  let ?oa = "uint (under_byteToOrder a)" and ?ob = "uint (under_byteToOrder b)"
  let ?d = "uint (under_byteToOrder b - under_byteToOrder a)"
  let ?per = "?d div (n + 1)"
  have d: "?d = ?ob - ?oa" using assms(2) by (simp add: uint_minus_simple_alt)
  have pos: "0 < n + 1" using assms(1) by simp
  have "0 < ?per" using pos assms(3) by (simp add: pos_imp_zdiv_pos_iff)
  then have ge1: "1 \<le> ?per" by simp
  have idx: "\<And>i. i \<in> set [0..<nat n] \<Longrightarrow>
              0 \<le> ?oa + ?per * (int i + 1) \<and> ?oa + ?per * (int i + 1) < 62"
  proof -
    fix i assume "i \<in> set [0..<nat n]"
    then have "int i + 1 \<le> n + 1" by auto
    from div_times_le[of ?d "n + 1" "int i + 1", OF _ pos _ this]
    have "0 \<le> ?per * (int i + 1) \<and> ?per * (int i + 1) \<le> ?d" by simp
    then show "0 \<le> ?oa + ?per * (int i + 1) \<and> ?oa + ?per * (int i + 1) < 62"
      using d uint_order_le[of b] by simp
  qed
  obtain cs where "mids_fill ?oa ?per [0..<nat n] = Inr cs"
    using mids_fill_ok[of "[0..<nat n]" ?oa ?per] idx by blast
  then show ?thesis
    using pos ge1 assms(1) by (simp add: mids_def byteToOrder_total sdiv_nonneg)
qed

text \<open>Between the two default characters there is room for up to 60 symbols, not 61.\<close>

lemma mids_min_max:
  assumes "0 \<le> n" and "n \<le> 60"
  shows "\<exists>cs. mids n minChar maxChar = Inr (Some cs)"
  using assms by (intro mids_room) (simp_all add: order_minChar order_maxChar)

lemma mids_61_min_max: "mids 61 minChar maxChar = Inr None"
  by (rule mids_no_room) (simp_all add: order_minChar order_maxChar)

section \<open>The loop of \<open>majorRanks\<close>\<close>

lemma majorStep_equal:
  "getChar (Major prev) i minChar = getChar (Major next) i maxChar \<Longrightarrow>
   majorStep n L prev next rank i
   = Continue prev next (rank @ string_of_byte (getChar (Major prev) i minChar)) (i + 1)"
  by (simp add: majorStep_def)

text \<open>While the characters agree, the loop copies them into \<open>rank\<close>.\<close>

lemma majorLoop_skip_equal:
  assumes "\<And>k. i \<le> k \<Longrightarrow> k < m \<Longrightarrow>
             getChar (Major prev) k minChar = getChar (Major next) k maxChar"
      and "i \<le> m"
  shows "majorLoop ((m - i) + f) n L prev next rank i
         = majorLoop f n L prev next
             (rank @ concat (map (\<lambda>k. string_of_byte (getChar (Major prev) k minChar)) [i..<m])) m"
  using assms
proof (induction "m - i" arbitrary: i rank)
  case 0
  then show ?case by simp
next
  case (Suc d)
  let ?s = "\<lambda>k. string_of_byte (getChar (Major prev) k minChar)"
  from Suc have lt: "i < m" and d: "d = m - Suc i" by simp_all
  have eq: "getChar (Major prev) i minChar = getChar (Major next) i maxChar"
    using Suc.prems(1)[of i] lt by simp
  have "majorLoop ((m - i) + f) n L prev next rank i
        = majorLoop (Suc ((m - Suc i) + f)) n L prev next rank i"
    using lt by (simp add: Suc_diff_Suc)
  also have "\<dots> = majorLoop ((m - Suc i) + f) n L prev next (rank @ ?s i) (Suc i)"
    by (simp add: majorStep_equal[OF eq])
  also have "\<dots> = majorLoop f n L prev next
        ((rank @ ?s i) @ concat (map ?s [Suc i..<m])) m"
    using Suc.hyps(1)[OF d] Suc.prems(1) lt by simp
  also have "(rank @ ?s i) @ concat (map ?s [Suc i..<m]) = rank @ concat (map ?s [i..<m])"
    using lt by (simp add: upt_conv_Cons)
  finally show ?case .
qed

text \<open>Over a common ASCII prefix the loop copies the prefix into \<open>rank\<close>.\<close>

lemma concat_getChar_prefix:
  assumes "list_all is_ascii p"
  shows "concat (map (\<lambda>k. string_of_byte (getChar (p @ s) k d)) [0..<length p]) = p"
proof -
  have "map (\<lambda>k. string_of_byte (getChar (p @ s) k d)) [0..<length p]
        = map (\<lambda>k. [p ! k]) [0..<length p]"
    using assms
    by (intro map_cong) (simp_all add: getChar_prefix string_of_byte_ascii list_all_length)
  also have "\<dots> = map (\<lambda>c. [c]) (map (\<lambda>k. p ! k) [0..<length p])"
    by simp
  also have "\<dots> = map (\<lambda>c. [c]) p"
    by (simp only: map_nth)
  finally show ?thesis by simp
qed

lemma majorLoop_common_prefix:
  assumes "Major prev = p @ s1" and "Major next = p @ s2" and "list_all is_ascii p"
  shows "majorLoop (length p + f) n L prev next [] 0
         = majorLoop f n L prev next p (length p)"
proof -
  have "majorLoop ((length p - 0) + f) n L prev next [] 0
        = majorLoop f n L prev next
            ([] @ concat (map (\<lambda>k. string_of_byte (getChar (Major prev) k minChar))
                            [0..<length p])) (length p)"
    by (rule majorLoop_skip_equal) (simp_all add: assms getChar_prefix)
  then show ?thesis by (simp add: assms(1) concat_getChar_prefix[OF assms(3)])
qed

text \<open>
  The comparison of the two capacities is a comparison of bytes in the source; no
  subtraction wraps around, so it is the comparison of the integers.
\<close>

lemma space_compare:
  assumes "w \<le> 61"
  shows "((word_of_int MaxMultiRank :: byte) - w > v) = (61 - uint w > uint v)"
proof -
  have "(word_of_int MaxMultiRank :: byte) = 61" by (simp add: MaxMultiRank_def)
  moreover have "uint ((61::byte) - w) = 61 - uint w"
    using assms by (simp add: uint_minus_simple_alt)
  ultimately show ?thesis by (simp add: word_less_def)
qed

text \<open>The iteration at an index where the characters differ and \<open>mids\<close> finds no room.\<close>

lemma majorStep_no_room:
  assumes "getChar (Major prev) i minChar \<noteq> getChar (Major next) i maxChar"
      and "mids n (getChar (Major prev) i minChar) (getChar (Major next) i maxChar) = Inr None"
  shows "majorStep n L prev next rank i =
     (if 61 - uint (under_byteToOrder (getChar (Major prev) (i + 1) minChar))
           > uint (under_byteToOrder (getChar (Major next) (i + 1) maxChar))
      then (if i \<le> length (Major next)
            then Continue prev
                   (next\<lparr>Major := take i (Major next)
                                   @ string_of_byte (getChar (Major prev) i minChar)\<rparr>)
                   (rank @ string_of_byte (getChar (Major prev) i minChar)) (i + 1)
            else Return (Inl SliceOutOfRange))
      else (if i \<le> length (Major prev)
            then Continue
                   (prev\<lparr>Major := take i (Major prev)
                                   @ string_of_byte (getChar (Major next) i maxChar)\<rparr>)
                   next (rank @ string_of_byte (getChar (Major next) i maxChar)) (i + 1)
            else Return (Inl SliceOutOfRange)))"
  using assms
  by (simp add: majorStep_def byteToOrder_total Let_def
      space_compare[OF under_byteToOrder_le] slice_to_def)

lemma majorStep_Continue_bucket:
  "majorStep n L prev next rank i = Continue prev' next' rank' i' \<Longrightarrow>
   Bucket prev' = Bucket prev"
  by (auto simp: majorStep_def Let_def split: if_splits sum.splits option.splits)



text \<open>When the loop hands over to the minor path.\<close>

lemma Ranks_minor_path:
  assumes "n \<le> MaxMultiRank"
      and "Major (prev_or_default prev next)
             = Major (next_or_default (prev_or_default prev next) next)
           \<or> (\<exists>out. majorRanks fuel n (prev_or_default prev next)
                        (next_or_default (prev_or_default prev next) next)
                      = Some (Inr (out, False)))"
  shows "Ranks fuel n prev next
         = Some (minorRanks n (prev_or_default prev next)
                   (next_or_default (prev_or_default prev next) next))"
  using assms by (auto simp: Ranks_def Let_def)

lemmas eval_defs = Ranks_def MaxMultiRank_def majorRanks_def majorStep_def getChar_def
  minChar_def maxChar_def prev_or_default_def next_or_default_def minorRanks_def
  string_of_byte_def

section \<open>Termination of the loop\<close>

text \<open>
  With a batch size from 0 to 60 and ASCII majors (every string over the alphabet is
  one), every iteration that continues moves the index forward below the longer of the
  two majors, and the iteration at that length finds room between the two default
  characters: the loop ends within \<open>max(len(lowerMajor), len(upperMajor)) + 1\<close>
  iterations, in a result or a panic.
\<close>

lemma majorStep_Continue_inv:
  assumes "majorStep n L prev next rank i = Continue prev' next' rank' i'"
      and "0 \<le> n" and "n \<le> 60"
      and "length (Major prev) \<le> m" and "length (Major next) \<le> m" and "i \<le> m"
      and "list_all is_ascii (Major prev)" and "list_all is_ascii (Major next)"
  shows "i < m \<and> i' = i + 1 \<and> length (Major prev') \<le> m \<and> length (Major next') \<le> m
         \<and> list_all is_ascii (Major prev') \<and> list_all is_ascii (Major next')"
proof -
  let ?a = "getChar (Major prev) i minChar" and ?b = "getChar (Major next) i maxChar"
  have lt: "i < m"
  proof (rule ccontr)
    assume "\<not> i < m"
    then have "i = m" using assms(6) by simp
    then have g: "?a = minChar" "?b = maxChar"
      using assms(4,5) by (simp_all add: getChar_beyond)
    obtain cs where "mids n minChar maxChar = Inr (Some cs)"
      using mids_min_max[OF assms(2,3)] by blast
    then show False
      using assms(1) by (simp add: majorStep_def g min_ne_max split: if_splits sum.splits)
  qed
  have sa: "string_of_byte ?a = [?a]" and aa: "is_ascii ?a"
    using getChar_ascii[OF assms(7) is_ascii_minChar, of i] by (simp_all add: string_of_byte_ascii)
  have sb: "string_of_byte ?b = [?b]" and ab: "is_ascii ?b"
    using getChar_ascii[OF assms(8) is_ascii_maxChar, of i] by (simp_all add: string_of_byte_ascii)
  have ta: "list_all is_ascii (take i (Major prev))" and tb: "list_all is_ascii (take i (Major next))"
    using assms(7,8) by (auto simp: list_all_iff dest: in_set_takeD)
  show ?thesis
    using assms(1,4,5,7,8) lt aa ab ta tb
    by (auto simp: majorStep_def Let_def slice_to_def sa sb
        split: if_splits sum.splits option.splits)
qed

lemma majorLoop_ends:
  "0 \<le> n \<Longrightarrow> n \<le> 60 \<Longrightarrow> length (Major prev) \<le> m \<Longrightarrow> length (Major next) \<le> m \<Longrightarrow>
   i \<le> m \<Longrightarrow> list_all is_ascii (Major prev) \<Longrightarrow> list_all is_ascii (Major next) \<Longrightarrow>
   m + 1 - i \<le> fuel \<Longrightarrow>
   \<exists>r. majorLoop fuel n L prev next rank i = Some r"
proof (induction fuel arbitrary: prev "next" rank i)
  case 0
  then show ?case by simp
next
  case (Suc fuel)
  show ?case
  proof (cases "majorStep n L prev next rank i")
    case (Return r)
    then show ?thesis by simp
  next
    case (Continue prev' next' rank' i')
    from majorStep_Continue_inv[OF Continue Suc.prems(1,2,3,4,5,6,7)]
    have inv: "i < m" "i' = i + 1" "length (Major prev') \<le> m" "length (Major next') \<le> m"
        "list_all is_ascii (Major prev')" "list_all is_ascii (Major next')"
      by simp_all
    have "\<exists>r. majorLoop fuel n L prev' next' rank' i' = Some r"
      using Suc.prems(1,2,8) inv by (intro Suc.IH) simp_all
    then show ?thesis using Continue by simp
  qed
qed

lemma majorRanks_ends_within:
  assumes "1 \<le> n" and "n \<le> 60"
      and "list_all is_ascii (Major prev)" and "list_all is_ascii (Major next)"
  shows "\<exists>r. majorRanks (max (length (Major prev)) (length (Major next)) + nat n) n prev next
              = Some r"
  unfolding majorRanks_def
  using assms
  by (intro majorLoop_ends[where m = "max (length (Major prev)) (length (Major next))"])
     simp_all

lemma simple_loop_ends:
  "0 \<le> n \<Longrightarrow> n \<le> 60 \<Longrightarrow> length prev \<le> m \<Longrightarrow> length next \<le> m \<Longrightarrow>
   i \<le> m \<Longrightarrow> m + 1 - i \<le> fuel \<Longrightarrow>
   \<exists>r. simple_loop fuel n prev next rank i = Some r"
proof (induction fuel arbitrary: rank i)
  case 0
  then show ?case by simp
next
  case (Suc fuel)
  obtain cs where room: "mids n minChar maxChar = Inr (Some cs)"
    using mids_min_max[OF Suc.prems(1,2)] by blast
  show ?case
  proof (cases "i = m")
    case True
    then have g: "getChar prev i minChar = minChar" "getChar next i maxChar = maxChar"
      using Suc.prems(3,4) by (simp_all add: getChar_beyond)
    show ?thesis by (simp add: g min_ne_max simple_mids_eq room)
  next
    case False
    then have "\<And>rank'. \<exists>r. simple_loop fuel n prev next rank' (i + 1) = Some r"
      using Suc.prems by (intro Suc.IH) simp_all
    then show ?thesis
      by (auto simp: Let_def split: sum.splits option.splits)
  qed
qed

lemma simple_Ranks_ends_within:
  assumes "1 \<le> n" and "n \<le> 60"
  shows "\<exists>r. simple_Ranks (max (length prev) (length next) + nat n) n prev next = Some r"
proof -
  let ?p = "if prev = [] then string_of_byte minChar else prev"
  let ?q = "if next = [] then string_of_byte maxChar else next"
  let ?m = "max (length ?p) (length ?q)"
  show ?thesis
  proof (cases "prev = [] \<and> next = []")
    case True
    obtain cs where room: "mids n minChar maxChar = Inr (Some cs)"
      using mids_min_max assms by (metis order.trans zero_le_one)
    have "nat n = Suc (nat n - 1)" using assms(1) by simp
    then obtain k where k: "nat n = Suc k" ..
    show ?thesis
      using True assms(2) room
      by (simp add: simple_Ranks_def MaxMultiRank_def k getChar_def min_ne_max simple_mids_eq
          string_of_minChar string_of_maxChar)
  next
    case False
    then have m: "?m = max (length prev) (length next)"
      by (cases prev; cases "next") (simp_all add: string_of_minChar string_of_maxChar)
    have "\<exists>r. simple_loop (max (length prev) (length next) + nat n) n ?p ?q [] 0 = Some r"
      using assms m by (intro simple_loop_ends[where m = ?m]) simp_all
    then show ?thesis
      using assms(2) by (simp add: simple_Ranks_def MaxMultiRank_def Let_def)
  qed
qed

text \<open>
  With a batch size of 61 \<open>mids\<close> never finds room: without wrap-around the
  spacing is at most \<open>61 div 62 = 0\<close>, and with it the last index is out of range.
\<close>

lemma mids_61_never_room: "mids 61 a b \<noteq> Inr (Some cs)"
proof
  assume m: "mids 61 a b = Inr (Some cs)"
  let ?oa = "uint (under_byteToOrder a)"
  let ?d = "uint (under_byteToOrder b - under_byteToOrder a)"
  have per: "1 \<le> ?d div 62"
    using m by (auto simp: mids_def byteToOrder_total sdiv_nonneg Let_def split: if_splits)
  from mids_nth[OF m, of 60]
  have "orderToByte_at (?oa + (?d div 62) * 61) = Inr (cs ! 60)"
    by (simp add: sdiv_nonneg)
  then have lt: "?oa + (?d div 62) * 61 < 62"
    by (auto simp: orderToByte_at_def orderToByte_def split: if_splits)
  have "0 \<le> ?oa" by simp
  then have oa0: "?oa = 0" using per lt by linarith
  then have "under_byteToOrder a = 0" by (simp add: uint_0_iff)
  then have "?d = uint (under_byteToOrder b)" by simp
  then have "?d div 62 = 0" using uint_order_le[of b] by (simp add: div_pos_pos_trivial)
  then show False using per by simp
qed

lemma majorStep_61_no_result: "majorStep 61 L prev next rank i \<noteq> Return (Inr r)"
  by (auto simp: majorStep_def Let_def mids_61_never_room
      split: if_splits sum.splits option.splits)

lemma majorLoop_61_no_result: "majorLoop fuel 61 L prev next rank i \<noteq> Some (Inr r)"
proof (induction fuel arbitrary: prev "next" rank i)
  case 0
  then show ?case by simp
next
  case (Suc fuel)
  show ?case
  proof (cases "majorStep 61 L prev next rank i")
    case (Continue prev' next' rank' i')
    then show ?thesis using Suc.IH by simp
  next
    case (Return x)
    then show ?thesis using majorStep_61_no_result[of L prev "next" rank i r] by auto
  qed
qed

lemma simple_loop_61_no_result: "simple_loop fuel 61 prev next rank i \<noteq> Some (Inr r)"
proof (induction fuel arbitrary: rank i)
  case 0
  then show ?case by simp
next
  case (Suc fuel)
  then show ?case
    by (auto simp: Let_def simple_mids_eq mids_61_never_room split: sum.splits option.splits)
qed

text \<open>
  Once the lower major ends at the index and the upper major has only \<open>z\<close> from
  there on, the loop with a batch size of 61 appends \<open>z\<close> to the lower major for ever.
\<close>

lemma majorStep_61_beyond:
  assumes "length (Major prev) = i" and "\<And>k. getChar (Major next) k maxChar = maxChar"
  shows "majorStep 61 L prev next rank i
         = Continue (prev\<lparr>Major := Major prev @ [maxChar]\<rparr>) next (rank @ [maxChar]) (i + 1)"
proof -
  have g: "getChar (Major prev) i minChar = minChar"
    "getChar (Major prev) (Suc i) minChar = minChar"
    using assms(1) by (simp_all add: getChar_beyond)
  have ne: "getChar (Major prev) i minChar \<noteq> getChar (Major next) i maxChar"
    by (simp add: g assms(2) min_ne_max)
  have nr: "mids 61 (getChar (Major prev) i minChar) (getChar (Major next) i maxChar) = Inr None"
    by (simp add: g assms(2) mids_61_min_max)
  show ?thesis
    unfolding majorStep_no_room[OF ne nr]
    using assms(1) by (simp add: g assms(2) order_minChar order_maxChar string_of_maxChar)
qed

lemma majorLoop_61_diverges:
  "length (Major prev) = i \<Longrightarrow> (\<And>k. getChar (Major next) k maxChar = maxChar) \<Longrightarrow>
   majorLoop fuel 61 L prev next rank i = None"
proof (induction fuel arbitrary: prev rank i)
  case 0
  then show ?case by simp
next
  case (Suc fuel)
  have "majorLoop (Suc fuel) 61 L prev next rank i
        = majorLoop fuel 61 L (prev\<lparr>Major := Major prev @ [maxChar]\<rparr>) next
            (rank @ [maxChar]) (i + 1)"
    by (simp add: majorStep_61_beyond[OF Suc.prems])
  also have "\<dots> = None"
    using Suc.prems by (intro Suc.IH) simp_all
  finally show ?case .
qed

text \<open>The first iteration, at a lower major of \<open>0\<close>s and an upper major of \<open>z\<close>s.\<close>

lemma majorLoop_61_from_start:
  assumes "Major prev = CHR ''0'' # p" and "set p \<subseteq> {CHR ''0''}"
      and "Major next = CHR ''z'' # q" and "set q \<subseteq> {CHR ''z''}"
  shows "majorLoop fuel 61 L prev next [] 0 = None"
proof (cases fuel)
  case 0
  then show ?thesis by simp
next
  case (Suc k)
  have zs: "\<And>j. getChar (Major next) j maxChar = maxChar"
  proof -
    fix j
    show "getChar (Major next) j maxChar = maxChar"
    proof (cases "j < length (Major next)")
      case True
      then have "Major next ! j \<in> set (Major next)" by simp
      then show ?thesis using assms(3,4) True by (auto simp: getChar_def maxChar_def)
    next
      case False
      then show ?thesis by (simp add: getChar_def)
    qed
  qed
  have p1: "getChar (Major prev) (Suc 0) minChar = minChar"
  proof (cases p)
    case Nil
    then show ?thesis using assms(1) by (simp add: getChar_def)
  next
    case (Cons c cs)
    then show ?thesis using assms(1,2) by (simp add: getChar_def minChar_def)
  qed
  have g0: "getChar (Major prev) 0 minChar = minChar"
    using assms(1) by (simp add: getChar_def minChar_def)
  have ne: "getChar (Major prev) 0 minChar \<noteq> getChar (Major next) 0 maxChar"
    by (simp add: g0 zs min_ne_max)
  have nr: "mids 61 (getChar (Major prev) 0 minChar) (getChar (Major next) 0 maxChar) = Inr None"
    by (simp add: g0 zs mids_61_min_max)
  have first: "majorStep 61 L prev next [] 0
               = Continue (prev\<lparr>Major := [maxChar]\<rparr>) next [maxChar] (Suc 0)"
    unfolding majorStep_no_room[OF ne nr]
    by (simp add: g0 p1 zs order_minChar order_maxChar string_of_maxChar)
  have "majorLoop k 61 L (prev\<lparr>Major := [maxChar]\<rparr>) next [maxChar] (Suc 0) = None"
    by (rule majorLoop_61_diverges) (simp_all add: zs)
  then show ?thesis using Suc first by simp
qed

lemma simple_loop_61_diverges: "simple_loop fuel 61 ''0'' ''z'' rank i = None"
proof (induction fuel arbitrary: rank i)
  case 0
  then show ?case by simp
next
  case (Suc fuel)
  have g: "getChar ''0'' i minChar = minChar" "getChar ''z'' i maxChar = maxChar"
    by (cases i; simp add: getChar_def minChar_def maxChar_def)+
  show ?case
    by (simp add: g min_ne_max simple_mids_eq mids_61_min_max Suc.IH)
qed



section \<open>Ordering for bounds of equal length\<close>

text \<open>
  The symbols are in increasing order of their codes, so that the order of the
  indices is the order of the bytes.
\<close>

lemma order_table:
  "list_all (\<lambda>k. under_byteToOrder (orderToByte ! k) = of_nat k) [0..<62]"
  by code_simp

lemma code_table:
  "sorted_wrt (<) (map of_char orderToByte :: nat list)"
  by code_simp

lemma length_orderToByte: "length orderToByte = 62"
  by (simp add: orderToByte_def)

lemma order_nth:
  assumes "k < 62"
  shows "uint (under_byteToOrder (orderToByte ! k)) = int k"
proof -
  have "under_byteToOrder (orderToByte ! k) = of_nat k"
    using order_table assms by (simp add: list_all_iff)
  moreover have "unat (of_nat k :: byte) = k"
    using assms by (simp add: unat_of_nat)
  ultimately show ?thesis by (simp add: uint_nat)
qed

lemma alphabet_nth: "alphabet c \<Longrightarrow> \<exists>k<62. c = orderToByte ! k"
  by (auto simp: alphabet_def in_set_conv_nth length_orderToByte)

lemma order_at: 
  assumes "orderToByte_at k = Inr c"
  shows "alphabet c \<and> uint (under_byteToOrder c) = k"
proof -
  from assms have k: "0 \<le> k" "k < 62" and c: "c = orderToByte ! nat k"
    by (auto simp: orderToByte_at_def length_orderToByte split: if_splits)
  have "nat k < 62" using k by simp
  then show ?thesis
    using order_nth[of "nat k"] k c by (simp add: alphabet_def length_orderToByte)
qed

lemma order_mono:
  assumes "alphabet x" and "alphabet y"
      and "uint (under_byteToOrder x) < uint (under_byteToOrder y)"
  shows "(of_char x :: nat) < of_char y"
proof -
  obtain i where i: "i < 62" "x = orderToByte ! i" using alphabet_nth[OF assms(1)] by blast
  obtain j where j: "j < 62" "y = orderToByte ! j" using alphabet_nth[OF assms(2)] by blast
  have xi: "uint (under_byteToOrder x) = int i" by (simp only: i(2) order_nth[OF i(1)])
  have yj: "uint (under_byteToOrder y) = int j" by (simp only: j(2) order_nth[OF j(1)])
  have "int i < int j" using assms(3) xi yj by linarith
  then have "i < j" by simp
  moreover have "j < length (map of_char orderToByte :: nat list)"
    using j(1) by (simp add: length_orderToByte)
  ultimately have "(map of_char orderToByte :: nat list) ! i < map of_char orderToByte ! j"
    by (rule sorted_wrt_nth_less[OF code_table])
  moreover have "i < length orderToByte" "j < length orderToByte"
    using i(1) j(1) by (simp_all only: length_orderToByte)
  ultimately show ?thesis by (simp only: i(2) j(2) nth_map)
qed

lemma order_inj:
  assumes "alphabet x" and "alphabet y"
      and "under_byteToOrder x = under_byteToOrder y"
  shows "x = y"
proof -
  obtain i where i: "i < 62" "x = orderToByte ! i" using alphabet_nth[OF assms(1)] by blast
  obtain j where j: "j < 62" "y = orderToByte ! j" using alphabet_nth[OF assms(2)] by blast
  have xi: "uint (under_byteToOrder x) = int i" by (simp only: i(2) order_nth[OF i(1)])
  have yj: "uint (under_byteToOrder y) = int j" by (simp only: j(2) order_nth[OF j(1)])
  have "uint (under_byteToOrder x) = uint (under_byteToOrder y)" by (simp only: assms(3))
  then have "int i = int j" using xi yj by linarith
  then have "i = j" by simp
  then show ?thesis by (simp only: i(2) j(2))
qed

lemma wrap_table: "list_all (\<lambda>n. 60 < (195 div (n + 1)) * n) [1..61]"
  by code_simp

text \<open>With a batch of at least one, a wrapped difference never gives symbols.\<close>

lemma mids_no_wrap:
  assumes "mids n a b = Inr (Some cs)" and "1 \<le> n"
  shows "under_byteToOrder a \<le> under_byteToOrder b"
proof (rule ccontr)
  assume "\<not> under_byteToOrder a \<le> under_byteToOrder b"
  then have lt: "under_byteToOrder b < under_byteToOrder a" by simp
  let ?oa = "uint (under_byteToOrder a)" and ?ob = "uint (under_byteToOrder b)"
  let ?d = "uint (under_byteToOrder b - under_byteToOrder a)"
  have ltu: "?ob < ?oa" using lt by (simp add: word_less_def)
  have d: "?d = 256 + ?ob - ?oa"
    using ltu by (simp add: uint_sub_if')
  have "0 \<le> ?ob" by simp
  then have d195: "195 \<le> ?d" using d uint_order_le[of a] by linarith
  have pos: "0 < n + 1" using assms(2) by simp
  have n61: "n \<le> 61"
  proof (rule ccontr)
    assume "\<not> n \<le> 61"
    then have "62 \<le> n" by simp
    from mids_nth[OF assms(1), of 61] this
    have "orderToByte_at (?oa + (?d sdiv (n + 1)) * 62) = Inr (cs ! 61)" by simp
    then have "?oa + (?d sdiv (n + 1)) * 62 < 62"
      by (auto simp: orderToByte_at_def length_orderToByte split: if_splits)
    moreover have "1 \<le> ?d sdiv (n + 1)"
      using assms(1) by (auto simp: mids_def byteToOrder_total Let_def split: if_splits)
    moreover have "0 \<le> ?ob" by simp
    ultimately show False using ltu by linarith
  qed
  have "n \<in> set [1..61]" using assms(2) n61 by simp
  then have tab: "60 < (195 div (n + 1)) * n"
    using wrap_table by (simp add: list_all_iff)
  have "195 div (n + 1) \<le> ?d div (n + 1)"
    using d195 pos by (simp add: zdiv_mono1)
  then have "(195 div (n + 1)) * n \<le> (?d div (n + 1)) * n"
    using assms(2) by (simp add: mult_right_mono)
  then have big: "60 < (?d div (n + 1)) * n" using tab by linarith
  have "nat n - 1 < nat n" using assms(2) by simp
  from mids_nth[OF assms(1) this]
  have "orderToByte_at (?oa + (?d sdiv (n + 1)) * (int (nat n - 1) + 1)) = Inr (cs ! (nat n - 1))" .
  moreover have "int (nat n - 1) + 1 = n" using assms(2) by simp
  ultimately have "orderToByte_at (?oa + (?d div (n + 1)) * n) = Inr (cs ! (nat n - 1))"
    using pos by (simp add: sdiv_nonneg)
  then have "?oa + (?d div (n + 1)) * n < 62"
    by (auto simp: orderToByte_at_def length_orderToByte split: if_splits)
  moreover have "0 \<le> ?ob" by simp
  ultimately show False using big ltu by linarith
qed

text \<open>The symbols of \<open>mids\<close> lie strictly between the two characters, in increasing order.\<close>

lemma mids_between:
  assumes "mids n a b = Inr (Some cs)" and "1 \<le> n" and "j < length cs"
  shows "alphabet (cs ! j)"
    and "uint (under_byteToOrder a) < uint (under_byteToOrder (cs ! j))"
    and "uint (under_byteToOrder (cs ! j)) < uint (under_byteToOrder b)"
    and "\<And>k. j < k \<Longrightarrow> k < length cs \<Longrightarrow>
           uint (under_byteToOrder (cs ! j)) < uint (under_byteToOrder (cs ! k))"
proof -
  let ?oa = "uint (under_byteToOrder a)" and ?ob = "uint (under_byteToOrder b)"
  let ?d = "uint (under_byteToOrder b - under_byteToOrder a)"
  let ?per = "?d div (n + 1)"
  have len: "length cs = nat n" by (rule mids_length[OF assms(1)])
  have pos: "0 < n + 1" using assms(2) by simp
  have per1: "1 \<le> ?per"
    using assms(1) pos by (auto simp: mids_def byteToOrder_total Let_def sdiv_nonneg split: if_splits)
  have d: "?d = ?ob - ?oa"
    using mids_no_wrap[OF assms(1,2)] by (simp add: uint_minus_simple_alt)
  have at: "\<And>k. k < length cs \<Longrightarrow>
      alphabet (cs ! k) \<and> uint (under_byteToOrder (cs ! k)) = ?oa + ?per * (int k + 1)"
  proof -
    fix k assume "k < length cs"
    then have "k < nat n" using len by simp
    from mids_nth[OF assms(1) this]
    have "orderToByte_at (?oa + ?per * (int k + 1)) = Inr (cs ! k)"
      using pos by (simp add: sdiv_nonneg)
    from order_at[OF this] show
      "alphabet (cs ! k) \<and> uint (under_byteToOrder (cs ! k)) = ?oa + ?per * (int k + 1)" .
  qed
  show "alphabet (cs ! j)" using at[OF assms(3)] by simp
  show "?oa < uint (under_byteToOrder (cs ! j))"
    using at[OF assms(3)] per1 by (simp add: add_pos_pos)
  have "int j + 1 \<le> n" using assms(3) len by simp
  then have "?per * (int j + 1) \<le> ?per * n"
    using per1 by (simp add: mult_left_mono)
  also have "\<dots> < ?per * (n + 1)" using per1 by (simp add: distrib_left)
  also have "\<dots> \<le> ?d"
    using div_times_le[of ?d "n + 1" "n + 1"] pos by simp
  finally show "uint (under_byteToOrder (cs ! j)) < ?ob"
    using at[OF assms(3)] d by simp
  show "\<And>k. j < k \<Longrightarrow> k < length cs \<Longrightarrow>
           uint (under_byteToOrder (cs ! j)) < uint (under_byteToOrder (cs ! k))"
  proof -
    fix k assume jk: "j < k" and k: "k < length cs"
    have "?per * (int j + 1) < ?per * (int k + 1)"
      using per1 jk by simp
    then show "uint (under_byteToOrder (cs ! j)) < uint (under_byteToOrder (cs ! k))"
      using at[OF assms(3)] at[OF k] by simp
  qed
qed

lemma bytes_less_append:
  "length x = length y \<Longrightarrow> bytes_less x y \<Longrightarrow> bytes_less (x @ s) (y @ t)"
  by (induction x y rule: list_induct2) auto

lemma bytes_less_at:
  "(of_char a :: nat) < of_char b \<Longrightarrow> bytes_less (p @ a # s) (p @ b # t)"
  by (induction p) auto

lemma alphabet_ascii: "alphabet c \<Longrightarrow> is_ascii c"
  using orderToByte_ascii by (simp add: alphabet_def list_all_iff)

lemma alphabet_minChar: "alphabet minChar"
  by (simp add: alphabet_def minChar_def orderToByte_def)

lemma alphabet_maxChar: "alphabet maxChar"
  by (simp add: alphabet_def maxChar_def orderToByte_def)

lemma getChar_alphabet: "list_all alphabet s \<Longrightarrow> alphabet d \<Longrightarrow> alphabet (getChar s k d)"
  by (simp add: getChar_def list_all_length)

lemma low_char:
  assumes "low_ok lo prev rank i" and "list_all alphabet lo"
  shows "alphabet (getChar (Major prev) i minChar)"
  using assms
  by (auto simp: low_ok_def getChar_alphabet alphabet_minChar getChar_beyond)

lemma up_char:
  assumes "up_ok hi next rank i" and "list_all alphabet hi"
  shows "alphabet (getChar (Major next) i maxChar)"
  using assms
  by (auto simp: up_ok_def getChar_alphabet alphabet_maxChar getChar_beyond)

lemma low_append_prev:
  assumes "low_ok lo prev rank i" and "length rank = i" and "i < length lo"
  shows "low_ok lo prev (rank @ [getChar (Major prev) i minChar]) (Suc i)"
proof -
  have t: "take (Suc i) lo = take i lo @ [lo ! i]"
    using assms(3) by (simp add: take_Suc_conv_app_nth)
  from assms(1) consider
      (a) "Major prev = lo" "rank = take i lo"
    | (b) "length (Major prev) \<le> i" "bytes_less (take i lo) rank"
    by (auto simp: low_ok_def)
  then show ?thesis
  proof cases
    case a
    then show ?thesis using assms(3) t by (simp add: low_ok_def getChar_def)
  next
    case b
    have "bytes_less (take i lo @ [lo ! i]) (rank @ [getChar (Major prev) i minChar])"
      using b(2) assms(2,3) by (intro bytes_less_append) simp_all
    then show ?thesis using b(1) t by (simp add: low_ok_def)
  qed
qed

lemma up_append_next:
  assumes "up_ok hi next rank i" and "length rank = i" and "i < length hi"
  shows "up_ok hi next (rank @ [getChar (Major next) i maxChar]) (Suc i)"
proof -
  have t: "take (Suc i) hi = take i hi @ [hi ! i]"
    using assms(3) by (simp add: take_Suc_conv_app_nth)
  from assms(1) consider
      (a) "Major next = hi" "rank = take i hi"
    | (b) "length (Major next) \<le> i" "bytes_less rank (take i hi)"
    by (auto simp: up_ok_def)
  then show ?thesis
  proof cases
    case a
    then show ?thesis using assms(3) t by (simp add: up_ok_def getChar_def)
  next
    case b
    have "bytes_less (rank @ [getChar (Major next) i maxChar]) (take i hi @ [hi ! i])"
      using b(2) assms(2,3) by (intro bytes_less_append) simp_all
    then show ?thesis using b(1) t by (simp add: up_ok_def)
  qed
qed

lemma low_rewrite:
  assumes "low_ok lo prev rank i" and "length rank = i" and "i < length lo"
      and "(of_char (getChar (Major prev) i minChar) :: nat) < of_char b"
  shows "low_ok lo (prev\<lparr>Major := take i (Major prev) @ [b]\<rparr>) (rank @ [b]) (Suc i)"
proof -
  have t: "take (Suc i) lo = take i lo @ [lo ! i]"
    using assms(3) by (simp add: take_Suc_conv_app_nth)
  have "bytes_less (take i lo @ [lo ! i]) (rank @ [b])"
  proof -
    from assms(1) consider
        (a) "Major prev = lo" "rank = take i lo"
      | (b) "length (Major prev) \<le> i" "bytes_less (take i lo) rank"
      by (auto simp: low_ok_def)
    then show ?thesis
    proof cases
      case a
      then have "(of_char (lo ! i) :: nat) < of_char b"
        using assms(3,4) by (simp add: getChar_def)
      then show ?thesis using a(2) by (simp add: bytes_less_at)
    next
      case b
      then show ?thesis using assms(2,3) by (intro bytes_less_append) simp_all
    qed
  qed
  then show ?thesis using t by (simp add: low_ok_def)
qed

lemma up_rewrite:
  assumes "up_ok hi next rank i" and "length rank = i" and "i < length hi"
      and "(of_char a :: nat) < of_char (getChar (Major next) i maxChar)"
  shows "up_ok hi (next\<lparr>Major := take i (Major next) @ [a]\<rparr>) (rank @ [a]) (Suc i)"
proof -
  have t: "take (Suc i) hi = take i hi @ [hi ! i]"
    using assms(3) by (simp add: take_Suc_conv_app_nth)
  have "bytes_less (rank @ [a]) (take i hi @ [hi ! i])"
  proof -
    from assms(1) consider
        (a) "Major next = hi" "rank = take i hi"
      | (b) "length (Major next) \<le> i" "bytes_less rank (take i hi)"
      by (auto simp: up_ok_def)
    then show ?thesis
    proof cases
      case a
      then have "(of_char a :: nat) < of_char (hi ! i)"
        using assms(3,4) by (simp add: getChar_def)
      then show ?thesis using a(2) by (simp add: bytes_less_at)
    next
      case b
      then show ?thesis using assms(2,3) by (intro bytes_less_append) simp_all
    qed
  qed
  then show ?thesis using t by (simp add: up_ok_def)
qed

text \<open>No room between two different symbols of the alphabet: the lower one is smaller.\<close>

lemma no_room_ordered:
  assumes "mids n a b = Inr None" and "0 \<le> n" and "n \<le> 61"
      and "alphabet a" and "alphabet b" and "a \<noteq> b"
  shows "(of_char a :: nat) < of_char b"
proof -
  let ?oa = "uint (under_byteToOrder a)" and ?ob = "uint (under_byteToOrder b)"
  let ?d = "uint (under_byteToOrder b - under_byteToOrder a)"
  have pos: "0 < n + 1" using assms(2) by simp
  have per0: "?d div (n + 1) < 1"
    using assms(1) pos
    by (auto simp: mids_def byteToOrder_total Let_def sdiv_nonneg split: if_splits sum.splits)
  have le: "?oa \<le> ?ob"
  proof (rule ccontr)
    assume "\<not> ?oa \<le> ?ob"
    then have lt: "?ob < ?oa" by simp
    then have "?d = 256 + ?ob - ?oa" by (simp add: uint_sub_if')
    moreover have "0 \<le> ?ob" by simp
    ultimately have "195 \<le> ?d" using uint_order_le[of a] by linarith
    then have "n + 1 \<le> ?d" using assms(3) by simp
    then have "0 < ?d div (n + 1)" using pos by (simp add: pos_imp_zdiv_pos_iff)
    then show False using per0 by simp
  qed
  have "?oa \<noteq> ?ob"
    using order_inj[OF assms(4,5)] assms(6) by (auto simp: word_uint_eq_iff)
  then have "?oa < ?ob" using le by simp
  then show ?thesis by (rule order_mono[OF assms(4,5)])
qed

lemma list_all_alphabet_ascii: "list_all alphabet s \<Longrightarrow> list_all is_ascii s"
  by (auto simp: list_all_iff alphabet_ascii)

lemma if_if_cases:
  "x = (if c then (if d then a else r) else (if e then b else r)) \<Longrightarrow> x = a \<or> x = b \<or> x = r"
  by (simp split: if_splits)

text \<open>An iteration that continues keeps the two sides of the invariant.\<close>

lemma majorStep_Continue_order:
  assumes st: "majorStep n L prev next rank i = Continue prev' next' rank' i'"
      and n: "0 \<le> n" "n \<le> 60"
      and len: "length lo = L" "length hi = L" "length rank = i" "i < L"
      and al: "list_all alphabet lo" "list_all alphabet hi"
      and lo: "low_ok lo prev rank i" and hi: "up_ok hi next rank i"
  shows "length rank' = Suc i \<and> low_ok lo prev' rank' (Suc i) \<and> up_ok hi next' rank' (Suc i)"
proof -
  let ?a = "getChar (Major prev) i minChar" and ?b = "getChar (Major next) i maxChar"
  have aa: "alphabet ?a" by (rule low_char[OF lo al(1)])
  have ab: "alphabet ?b" by (rule up_char[OF hi al(2)])
  have sa: "string_of_byte ?a = [?a]" by (simp add: string_of_byte_ascii alphabet_ascii aa)
  have sb: "string_of_byte ?b = [?b]" by (simp add: string_of_byte_ascii alphabet_ascii ab)
  have iL: "i < length lo" "i < length hi" using len by simp_all
  show ?thesis
  proof (cases "?a = ?b")
    case True
    have "majorStep n L prev next rank i = Continue prev next (rank @ [?a]) (i + 1)"
      using majorStep_equal[OF True, of n L rank] by (simp only: sa)
    then have "Continue prev next (rank @ [?a]) (i + 1) = Continue prev' next' rank' i'"
      using st by (simp only:)
    then have "prev' = prev" "next' = next" "rank' = rank @ [?a]"
      by (auto simp only: iteration.inject)
    moreover have "low_ok lo prev (rank @ [?a]) (Suc i)"
      by (rule low_append_prev[OF lo len(3) iL(1)])
    moreover have "up_ok hi next (rank @ [?a]) (Suc i)"
      using up_append_next[OF hi len(3) iL(2)] True by simp
    ultimately show ?thesis using len(3) by simp
  next
    case False
    have nr: "mids n ?a ?b = Inr None"
      using st False by (auto simp: majorStep_def Let_def split: sum.splits option.splits if_splits)
    have ord: "(of_char ?a :: nat) < of_char ?b"
      using no_room_ordered[OF nr n(1) _ aa ab False] n(2) by simp
    let ?A = "Continue prev (next\<lparr>Major := take i (Major next) @ [?a]\<rparr>) (rank @ [?a]) (i + 1)"
    let ?B = "Continue (prev\<lparr>Major := take i (Major prev) @ [?b]\<rparr>) next (rank @ [?b]) (i + 1)"
    have "majorStep n L prev next rank i = ?A \<or> majorStep n L prev next rank i = ?B
          \<or> majorStep n L prev next rank i = Return (Inl SliceOutOfRange)"
      using majorStep_no_room[OF False nr, of L rank] unfolding sa sb by (rule if_if_cases)
    then have "?A = Continue prev' next' rank' i' \<or> ?B = Continue prev' next' rank' i'"
      using st by (auto simp only: iteration.distinct)
    then consider
        (A) "prev' = prev"
            "next' = next\<lparr>Major := take i (Major next) @ [?a]\<rparr>" "rank' = rank @ [?a]"
      | (B) "next' = next"
            "prev' = prev\<lparr>Major := take i (Major prev) @ [?b]\<rparr>" "rank' = rank @ [?b]"
      by (auto simp only: iteration.inject)
    then show ?thesis
    proof cases
      case A
      have "low_ok lo prev (rank @ [?a]) (Suc i)"
        by (rule low_append_prev[OF lo len(3) iL(1)])
      moreover have "up_ok hi (next\<lparr>Major := take i (Major next) @ [?a]\<rparr>) (rank @ [?a]) (Suc i)"
        by (rule up_rewrite[OF hi len(3) iL(2) ord])
      ultimately show ?thesis using A len(3) by simp
    next
      case B
      have "low_ok lo (prev\<lparr>Major := take i (Major prev) @ [?b]\<rparr>) (rank @ [?b]) (Suc i)"
        by (rule low_rewrite[OF lo len(3) iL(1) ord])
      moreover have "up_ok hi next (rank @ [?b]) (Suc i)"
        by (rule up_append_next[OF hi len(3) iL(2)])
      ultimately show ?thesis using B len(3) by simp
    qed
  qed
qed

text \<open>An iteration that returns ranks returns them in order, between the bounds.\<close>

lemma majorStep_Return_order:
  assumes st: "majorStep n L prev next rank i = Return (Inr (out, True))"
      and n: "1 \<le> n"
      and len: "length lo = L" "length hi = L" "length rank = i"
      and al: "list_all alphabet lo" "list_all alphabet hi"
      and lo: "low_ok lo prev rank i" and hi: "up_ok hi next rank i"
  shows "(\<forall>q \<in> set out. Bucket q = Bucket prev \<and> bytes_less lo (Major q) \<and> bytes_less (Major q) hi)
         \<and> sorted_wrt (\<lambda>p q. bytes_less (Major p) (Major q)) out"
proof -
  let ?a = "getChar (Major prev) i minChar" and ?b = "getChar (Major next) i maxChar"
  from st obtain cs tr where
      m: "mids n ?a ?b = Inr (Some cs)"
    and ne: "length rank \<noteq> L"
    and sl: "slice_to trailer (int L - 1 - int (length rank)) = Inr tr"
    and out0: "out = map (\<lambda>mid. \<lparr>Bucket = Bucket prev,
                                  Major = rank @ string_of_byte mid @ tr,
                                  Minor = '':''\<rparr>) cs"
    by (auto simp: majorStep_def Let_def split: if_splits sum.splits option.splits)
  have "\<And>mid. mid \<in> set cs \<Longrightarrow> string_of_byte mid = [mid]"
    using mids_ascii[OF m] by (simp add: list_all_iff string_of_byte_ascii)
  then have out: "out = map (\<lambda>mid. \<lparr>Bucket = Bucket prev, Major = rank @ mid # tr,
                                 Minor = '':''\<rparr>) cs"
    unfolding out0 by (intro map_cong) simp_all
  have "0 \<le> int L - 1 - int (length rank)"
    using sl by (auto simp: slice_to_def split: if_splits)
  then have iL: "i < length lo" "i < length hi" using len by simp_all
  have aa: "alphabet ?a" by (rule low_char[OF lo al(1)])
  have ab: "alphabet ?b" by (rule up_char[OF hi al(2)])
  have above: "\<And>c. (of_char ?a :: nat) < of_char c \<Longrightarrow> bytes_less lo (rank @ c # tr)"
  proof -
    fix c assume c: "(of_char ?a :: nat) < of_char c"
    from lo consider
        (a) "Major prev = lo" "rank = take i lo"
      | (b) "length (Major prev) \<le> i" "bytes_less (take i lo) rank"
      by (auto simp: low_ok_def)
    then show "bytes_less lo (rank @ c # tr)"
    proof cases
      case a
      then have "(of_char (lo ! i) :: nat) < of_char c" using c iL(1) by (simp add: getChar_def)
      then have "bytes_less (take i lo @ lo ! i # drop (Suc i) lo) (take i lo @ c # tr)"
        by (rule bytes_less_at)
      then show ?thesis using a(2) iL(1) by (simp add: id_take_nth_drop[symmetric])
    next
      case b
      have "bytes_less (take i lo @ drop i lo) (rank @ c # tr)"
        using b(2) len(3) iL(1) by (intro bytes_less_append) simp_all
      then show ?thesis by simp
    qed
  qed
  have below: "\<And>c. (of_char c :: nat) < of_char ?b \<Longrightarrow> bytes_less (rank @ c # tr) hi"
  proof -
    fix c assume c: "(of_char c :: nat) < of_char ?b"
    from hi consider
        (a) "Major next = hi" "rank = take i hi"
      | (b) "length (Major next) \<le> i" "bytes_less rank (take i hi)"
      by (auto simp: up_ok_def)
    then show "bytes_less (rank @ c # tr) hi"
    proof cases
      case a
      then have "(of_char c :: nat) < of_char (hi ! i)" using c iL(2) by (simp add: getChar_def)
      then have "bytes_less (take i hi @ c # tr) (take i hi @ hi ! i # drop (Suc i) hi)"
        by (rule bytes_less_at)
      then show ?thesis using a(2) iL(2) by (simp add: id_take_nth_drop[symmetric])
    next
      case b
      have "bytes_less (rank @ c # tr) (take i hi @ drop i hi)"
        using b(2) len(3) iL(2) by (intro bytes_less_append) simp_all
      then show ?thesis by simp
    qed
  qed
  have each: "\<And>j. j < length cs \<Longrightarrow>
      bytes_less lo (rank @ cs ! j # tr) \<and> bytes_less (rank @ cs ! j # tr) hi"
  proof -
    fix j assume j: "j < length cs"
    note mb = mids_between[OF m n j]
    have "(of_char ?a :: nat) < of_char (cs ! j)" by (rule order_mono[OF aa mb(1) mb(2)])
    moreover have "(of_char (cs ! j) :: nat) < of_char ?b" by (rule order_mono[OF mb(1) ab mb(3)])
    ultimately show "bytes_less lo (rank @ cs ! j # tr) \<and> bytes_less (rank @ cs ! j # tr) hi"
      using above below by blast
  qed
  have all: "\<forall>q \<in> set out. Bucket q = Bucket prev \<and> bytes_less lo (Major q) \<and> bytes_less (Major q) hi"
    unfolding out using each by (auto simp: in_set_conv_nth)
  have incr: "\<And>j k. j < k \<Longrightarrow> k < length cs \<Longrightarrow>
      bytes_less (rank @ cs ! j # tr) (rank @ cs ! k # tr)"
  proof -
    fix j k assume jk: "j < k" and k: "k < length cs"
    then have j: "j < length cs" by simp
    note mj = mids_between[OF m n j] and mk = mids_between[OF m n k]
    have "(of_char (cs ! j) :: nat) < of_char (cs ! k)"
      by (rule order_mono[OF mj(1) mk(1) mj(4)[OF jk k]])
    then show "bytes_less (rank @ cs ! j # tr) (rank @ cs ! k # tr)" by (rule bytes_less_at)
  qed
  have "sorted_wrt (\<lambda>p q. bytes_less (Major p) (Major q)) out"
    unfolding out using incr by (simp add: sorted_wrt_iff_nth_less)
  then show ?thesis using all by blast
qed

lemma majorLoop_order:
  assumes "majorLoop fuel n L prev next rank i = Some (Inr (out, True))"
      and "1 \<le> n" and "n \<le> 60"
      and "length lo = L" and "length hi = L" and "length rank = i"
      and "list_all alphabet lo" and "list_all alphabet hi"
      and "low_ok lo prev rank i" and "up_ok hi next rank i"
      and "length (Major prev) \<le> L" and "length (Major next) \<le> L" and "i \<le> L"
      and "list_all is_ascii (Major prev)" and "list_all is_ascii (Major next)"
  shows "(\<forall>q \<in> set out. Bucket q = Bucket prev \<and> bytes_less lo (Major q) \<and> bytes_less (Major q) hi)
         \<and> sorted_wrt (\<lambda>p q. bytes_less (Major p) (Major q)) out"
  using assms
proof (induction fuel arbitrary: prev "next" rank i)
  case 0
  then show ?case by simp
next
  case (Suc fuel)
  have n0: "0 \<le> n" using Suc.prems(2) by simp
  show ?case
  proof (cases "majorStep n L prev next rank i")
    case (Return r)
    then have "majorStep n L prev next rank i = Return (Inr (out, True))"
      using Suc.prems(1) by simp
    from majorStep_Return_order[OF this Suc.prems(2,4,5,6,7,8,9,10)] show ?thesis .
  next
    case (Continue prev' next' rank' i')
    then have run: "majorLoop fuel n L prev' next' rank' i' = Some (Inr (out, True))"
      using Suc.prems(1) by simp
    from majorStep_Continue_inv[OF Continue n0 Suc.prems(3,11,12,13,14,15)]
    have inv: "i < L" "i' = i + 1" "length (Major prev') \<le> L" "length (Major next') \<le> L"
        "list_all is_ascii (Major prev')" "list_all is_ascii (Major next')"
      by simp_all
    from majorStep_Continue_order[OF Continue n0 Suc.prems(3,4,5,6) inv(1) Suc.prems(7,8,9,10)]
    have ord: "length rank' = Suc i" "low_ok lo prev' rank' (Suc i)" "up_ok hi next' rank' (Suc i)"
      by simp_all
    have b: "Bucket prev' = Bucket prev"
      using Continue by (rule majorStep_Continue_bucket)
    have "(\<forall>q \<in> set out. Bucket q = Bucket prev' \<and> bytes_less lo (Major q) \<and> bytes_less (Major q) hi)
         \<and> sorted_wrt (\<lambda>p q. bytes_less (Major p) (Major q)) out"
      using run Suc.prems(2,3,4,5,7,8) ord inv
      by (intro Suc.IH[of prev' next' rank' i']) simp_all
    then show ?thesis using b by simp
  qed
qed

text \<open>
  For two bounds in one call whose majors are over the alphabet, of equal length and
  in order, every successful generation returns ranks in the bucket of the lower
  bound whose majors are strictly increasing and strictly between the two majors.
\<close>

lemma Ranks_ordered_for_equal_length:
  assumes "Ranks fuel n (Some lo) (Some hi) = Some (Inr (out, True))"
      and "1 \<le> n"
      and "length (Major lo) = length (Major hi)"
      and "list_all alphabet (Major lo)" and "list_all alphabet (Major hi)"
  shows "(\<forall>q \<in> set out. Bucket q = Bucket lo \<and> bytes_less (Major lo) (Major q)
                          \<and> bytes_less (Major q) (Major hi))
         \<and> sorted_wrt (\<lambda>p q. bytes_less (Major p) (Major q)) out"
proof -
  let ?L = "length (Major hi)"
  have n61: "n \<le> 61"
    using assms(1) by (auto simp: Ranks_def MaxMultiRank_def split: if_splits)
  have mr: "majorLoop fuel n ?L lo hi [] 0 = Some (Inr (out, True))"
    using assms(1,3) n61
    by (auto simp: Ranks_def MaxMultiRank_def Let_def prev_or_default_def next_or_default_def
        majorRanks_def minorRanks_def split: if_splits option.splits sum.splits)
  have "n \<noteq> 61" using mr majorLoop_61_no_result by auto
  then have n60: "n \<le> 60" using n61 by simp
  show ?thesis
    using mr assms(2) n60 assms(3,4,5)
    by (intro majorLoop_order[where fuel = fuel and n = n and L = ?L and ?next = hi
          and rank = "[]" and i = 0])
       (simp_all add: low_ok_def up_ok_def list_all_alphabet_ascii)
qed

section \<open>Concrete evaluations of \<open>mids\<close>\<close>


lemma mids_1_0_z: "mids 1 CHR ''0'' CHR ''z'' = Inr (Some ''U'')"
  by code_simp

lemma mids_3_0_z: "mids 3 CHR ''0'' CHR ''z'' = Inr (Some ''FUj'')"
  by code_simp

lemma mids_1_5_6: "mids 1 CHR ''5'' CHR ''6'' = Inr None"
  by code_simp

section \<open>Ordering of the generated ranks\<close>

text \<open>
  Claim C1. The ordering property fails on the code. For the lower bound \<open>0|Az\<close> and
  the upper bound \<open>0|B\<close> (the lower sorts strictly below the upper) and N = 1,
  \<open>Ranks\<close> reports success with the rank \<open>0|BU:\<close>, which does not sort below the upper
  bound: \<open>"B"\<close> is a proper prefix of \<open>"BU"\<close>. The simple variant does the same for the
  bounds \<open>"A"\<close> and \<open>"A0"\<close>: it returns \<open>"A0U"\<close>.
\<close>

theorem ranks_result_above_upper_bound:
  "Ranks 2 1 (Some \<lparr>Bucket = 0, Major = ''Az'', Minor = []\<rparr>)
             (Some \<lparr>Bucket = 0, Major = ''B'', Minor = []\<rparr>)
     = Some (Inr ([\<lparr>Bucket = 0, Major = ''BU'', Minor = '':''\<rparr>], True))
   \<and> Posn_less \<lparr>Bucket = 0, Major = ''Az'', Minor = []\<rparr>
                \<lparr>Bucket = 0, Major = ''B'', Minor = []\<rparr>
   \<and> \<not> Posn_less \<lparr>Bucket = 0, Major = ''BU'', Minor = '':''\<rparr>
                  \<lparr>Bucket = 0, Major = ''B'', Minor = []\<rparr>
   \<and> simple_Ranks 3 1 ''A'' ''A0'' = Some (Inr ([''A0U''], True))
   \<and> bytes_less ''A'' ''A0'' \<and> \<not> bytes_less ''A0U'' ''A0''"
  by code_simp

section \<open>The iteration bound\<close>

text \<open>
  Claim C2. The bound fails at the largest batch size the size check lets through.
  For N = 61 and the majors \<open>"0"\<close> and \<open>"z"\<close>, or both bounds absent, no number of
  iterations is enough: \<open>mids\<close> needs \<open>61 div 62 \<ge> 1\<close> to find room between the two
  default characters, so the loop of either source file continues for ever. Whatever
  the bounds, a call with N = 61 never returns ranks or a failure flag: it runs for
  ever or panics. (For \<open>1 \<le> N \<le> 60\<close> the loops end within
  \<open>max(len(lowerMajor), len(upperMajor)) + N\<close> iterations: \<open>majorRanks_ends_within\<close>
  and \<open>simple_Ranks_ends_within\<close> above.)
\<close>

theorem batch_of_61_never_returns:
  "Ranks fuel 61 (Some \<lparr>Bucket = b1, Major = ''0'', Minor = m1\<rparr>)
                 (Some \<lparr>Bucket = b2, Major = ''z'', Minor = m2\<rparr>) = None
   \<and> Ranks fuel 61 None None = None
   \<and> simple_Ranks fuel 61 ''0'' ''z'' = None
   \<and> simple_Ranks fuel 61 [] [] = None
   \<and> Ranks fuel 61 prev next \<noteq> Some (Inr r)
   \<and> simple_Ranks fuel 61 sprev snext \<noteq> Some (Inr sr)"
proof -
  have a: "Ranks fuel 61 (Some \<lparr>Bucket = b1, Major = ''0'', Minor = m1\<rparr>)
                 (Some \<lparr>Bucket = b2, Major = ''z'', Minor = m2\<rparr>) = None"
    using majorLoop_61_from_start[of "\<lparr>Bucket = b1, Major = ''0'', Minor = m1\<rparr>" "[]"
        "\<lparr>Bucket = b2, Major = ''z'', Minor = m2\<rparr>" "[]" fuel]
    by (simp add: Ranks_def majorRanks_def MaxMultiRank_def prev_or_default_def
        next_or_default_def)
  have b: "Ranks fuel 61 None None = None"
    using majorLoop_61_from_start[of "\<lparr>Bucket = 0, Major = ''000000'', Minor = '':''\<rparr>"
        "''00000''" "\<lparr>Bucket = 0, Major = ''zzzzzz'', Minor = '':''\<rparr>" "''zzzzz''" fuel]
    by (simp add: Ranks_def majorRanks_def MaxMultiRank_def prev_or_default_def
        next_or_default_def)
  have c: "simple_Ranks fuel 61 ''0'' ''z'' = None"
    by (simp add: simple_Ranks_def MaxMultiRank_def simple_loop_61_diverges)
  have d: "simple_Ranks fuel 61 [] [] = None"
    using simple_loop_61_diverges
    by (simp add: simple_Ranks_def MaxMultiRank_def string_of_byte_def minChar_def maxChar_def)
  have e: "Ranks fuel 61 prev next \<noteq> Some (Inr r)"
    using majorLoop_61_no_result
    by (auto simp: Ranks_def majorRanks_def MaxMultiRank_def Let_def minorRanks_def
        split: option.splits sum.splits if_splits)
  have f: "simple_Ranks fuel 61 sprev snext \<noteq> Some (Inr sr)"
    using simple_loop_61_no_result
    by (simp add: simple_Ranks_def MaxMultiRank_def Let_def)
  show ?thesis using a b c d e f by blast
qed

section \<open>No room at the last symbol\<close>

text \<open>
  Claim C3, as amended. For two bounds whose majors \<open>p @ [a]\<close> and \<open>p @ [b]\<close> differ
  only in their last symbol, with no room between \<open>a\<close> and \<open>b\<close> for \<open>n\<close> symbols
  (\<open>0 \<le> n \<le> 60\<close>, so N = 1 and adjacent symbols is one instance; \<open>p\<close> and \<open>b\<close>
  ASCII, as every symbol of the alphabet is), the major-level
  splitter \<open>majorRanks\<close> returns no ranks and a false \<open>ok\<close> flag, without panicking,
  within \<open>length p + 2\<close> iterations. \<open>Ranks\<close> does not return this flag: it hands
  the call to \<open>minorRanks\<close>.
\<close>

theorem no_room_at_last_symbol:
  assumes "0 \<le> n" and "n \<le> 60" and "a \<noteq> b" and "mids n a b = Inr None"
      and "list_all is_ascii p" and "is_ascii b"
  shows "majorRanks (length p + Suc (Suc f)) n
            \<lparr>Bucket = b1, Major = p @ [a], Minor = m1\<rparr>
            \<lparr>Bucket = b2, Major = p @ [b], Minor = m2\<rparr> = Some (Inr ([], False))
       \<and> Ranks (length p + Suc (Suc f)) n
            (Some \<lparr>Bucket = b1, Major = p @ [a], Minor = m1\<rparr>)
            (Some \<lparr>Bucket = b2, Major = p @ [b], Minor = m2\<rparr>)
          = Some (minorRanks n \<lparr>Bucket = b1, Major = p @ [a], Minor = m1\<rparr>
                               \<lparr>Bucket = b2, Major = p @ [b], Minor = m2\<rparr>)"
proof -
  let ?prev = "\<lparr>Bucket = b1, Major = p @ [a], Minor = m1\<rparr>"
  let ?prev' = "\<lparr>Bucket = b1, Major = p @ [b], Minor = m1\<rparr>"
  let ?next = "\<lparr>Bucket = b2, Major = p @ [b], Minor = m2\<rparr>"
  let ?L = "Suc (length p)"
  obtain cs where room: "mids n minChar maxChar = Inr (Some cs)"
    using mids_min_max[OF assms(1,2)] by blast
  have step1: "majorStep n ?L ?prev ?next p (length p)
               = Continue ?prev' ?next (p @ [b]) (Suc (length p))"
    using assms(3,4)
    by (simp add: majorStep_no_room getChar_at_prefix_end getChar_beyond
        order_minChar order_maxChar string_of_byte_ascii[OF assms(6)])
  have step2: "majorStep n ?L ?prev' ?next (p @ [b]) (Suc (length p)) = Return (Inr ([], False))"
    using room by (simp add: majorStep_def getChar_beyond min_ne_max)
  have "majorRanks (length p + Suc (Suc f)) n ?prev ?next
        = majorLoop (Suc (Suc f)) n ?L ?prev ?next p (length p)"
    unfolding majorRanks_def
    using majorLoop_common_prefix[of ?prev p "[a]" ?next "[b]" "Suc (Suc f)" n ?L] assms(5)
    by simp
  also have "\<dots> = Some (Inr ([], False))"
    by (simp add: step1 step2)
  finally have mr: "majorRanks (length p + Suc (Suc f)) n ?prev ?next = Some (Inr ([], False))" .
  have "n \<le> MaxMultiRank" using assms(2) by (simp add: MaxMultiRank_def)
  then have "Ranks (length p + Suc (Suc f)) n (Some ?prev) (Some ?next)
        = Some (minorRanks n ?prev ?next)"
    using Ranks_minor_path[of n "Some ?prev" "Some ?next" "length p + Suc (Suc f)"] mr
    by (simp add: prev_or_default_def next_or_default_def)
  then show ?thesis using mr by simp
qed

text \<open>The adjacent single-symbol majors \<open>"A"\<close> and \<open>"B"\<close> with N = 1.\<close>

theorem no_room_at_last_symbol_witness:
  "mids 1 CHR ''A'' CHR ''B'' = Inr None
   \<and> majorRanks 2 1 \<lparr>Bucket = 0, Major = ''A'', Minor = []\<rparr>
                      \<lparr>Bucket = 0, Major = ''B'', Minor = []\<rparr> = Some (Inr ([], False))
   \<and> Ranks 2 1 (Some \<lparr>Bucket = 0, Major = ''A'', Minor = []\<rparr>)
               (Some \<lparr>Bucket = 0, Major = ''B'', Minor = []\<rparr>)
      = Some (minorRanks 1 \<lparr>Bucket = 0, Major = ''A'', Minor = []\<rparr>
                            \<lparr>Bucket = 0, Major = ''B'', Minor = []\<rparr>)"
proof -
  have m: "mids 1 CHR ''A'' CHR ''B'' = Inr None" by code_simp
  have ne: "CHR ''A'' \<noteq> CHR ''B''" by simp
  from no_room_at_last_symbol[of 1 "CHR ''A''" "CHR ''B''" "[]" 0 0 "[]" 0 "[]", OF _ _ ne m]
  show ?thesis using m by (simp add: numeral_2_eq_2 is_ascii_def)
qed

text \<open>
  Claim C3 as stated fails: for the majors \<open>"A"\<close> and \<open>"B"\<close> and N = 1, \<open>Ranks\<close>
  panics in \<open>minorRanks\<close> instead of returning a false flag, and the simple variant
  succeeds with the rank \<open>"AU"\<close>.
\<close>

theorem adjacent_majors_abort_or_succeed:
  "Ranks 2 1 (Some \<lparr>Bucket = 0, Major = ''A'', Minor = []\<rparr>)
             (Some \<lparr>Bucket = 0, Major = ''B'', Minor = []\<rparr>) = Some (Inl Todo)
   \<and> simple_Ranks 2 1 ''A'' ''B'' = Some (Inr ([''AU''], True))"
  by code_simp

section \<open>The minor-value path\<close>

text \<open>
  Claim C4. For every call of \<open>Ranks\<close> with a batch size the size check lets through
  (\<open>n \<le> 61\<close>): when the majors of the two bounds are equal (after a nil bound has
  been replaced by its default), and likewise when \<open>majorRanks\<close> reports no room,
  \<open>Ranks\<close> hands the call to \<open>minorRanks\<close>, which panics; neither ranks nor a failure
  flag are returned.
\<close>

theorem minor_path_aborts:
  assumes "n \<le> MaxMultiRank"
      and "prev1 = prev_or_default prev next"
      and "next1 = next_or_default prev1 next"
      and "Major prev1 = Major next1
           \<or> (\<exists>out. majorRanks fuel n prev1 next1 = Some (Inr (out, False)))"
  shows "Ranks fuel n prev next = Some (minorRanks n prev1 next1)
         \<and> minorRanks n prev1 next1 = Inl Todo"
  using Ranks_minor_path[of n prev "next" fuel] assms by (simp add: minorRanks_def)

text \<open>
  Equal majors with different minors; a nil lower bound against the major \<open>"000000"\<close>;
  and the adjacent majors \<open>"A"\<close> and \<open>"B"\<close>, where \<open>majorRanks\<close> reports no room.
\<close>

theorem minor_path_aborts_witness:
  "Ranks 0 1 (Some \<lparr>Bucket = 0, Major = ''A'', Minor = '':1''\<rparr>)
             (Some \<lparr>Bucket = 0, Major = ''A'', Minor = '':2''\<rparr>) = Some (Inl Todo)
   \<and> Ranks 0 1 None (Some \<lparr>Bucket = 1, Major = ''000000'', Minor = []\<rparr>) = Some (Inl Todo)
   \<and> majorRanks 2 1 \<lparr>Bucket = 0, Major = ''A'', Minor = []\<rparr>
                      \<lparr>Bucket = 0, Major = ''B'', Minor = []\<rparr> = Some (Inr ([], False))
   \<and> Ranks 2 1 (Some \<lparr>Bucket = 0, Major = ''A'', Minor = []\<rparr>)
               (Some \<lparr>Bucket = 0, Major = ''B'', Minor = []\<rparr>) = Some (Inl Todo)"
proof -
  have mr: "majorRanks 2 1 \<lparr>Bucket = 0, Major = ''A'', Minor = []\<rparr>
                      \<lparr>Bucket = 0, Major = ''B'', Minor = []\<rparr> = Some (Inr ([], False))"
    by code_simp
  have a: "Ranks 0 1 (Some \<lparr>Bucket = 0, Major = ''A'', Minor = '':1''\<rparr>)
             (Some \<lparr>Bucket = 0, Major = ''A'', Minor = '':2''\<rparr>) = Some (Inl Todo)"
    using minor_path_aborts[of 1 "\<lparr>Bucket = 0, Major = ''A'', Minor = '':1''\<rparr>"
        "Some \<lparr>Bucket = 0, Major = ''A'', Minor = '':1''\<rparr>"
        "Some \<lparr>Bucket = 0, Major = ''A'', Minor = '':2''\<rparr>"
        "\<lparr>Bucket = 0, Major = ''A'', Minor = '':2''\<rparr>" 0]
    by (simp add: MaxMultiRank_def prev_or_default_def next_or_default_def)
  have b: "Ranks 0 1 None (Some \<lparr>Bucket = 1, Major = ''000000'', Minor = []\<rparr>) = Some (Inl Todo)"
    using minor_path_aborts[of 1 "\<lparr>Bucket = 1, Major = ''000000'', Minor = '':''\<rparr>"
        None "Some \<lparr>Bucket = 1, Major = ''000000'', Minor = []\<rparr>"
        "\<lparr>Bucket = 1, Major = ''000000'', Minor = []\<rparr>" 0]
    by (simp add: MaxMultiRank_def prev_or_default_def next_or_default_def)
  have c: "Ranks 2 1 (Some \<lparr>Bucket = 0, Major = ''A'', Minor = []\<rparr>)
               (Some \<lparr>Bucket = 0, Major = ''B'', Minor = []\<rparr>) = Some (Inl Todo)"
    using minor_path_aborts[of 1 "\<lparr>Bucket = 0, Major = ''A'', Minor = []\<rparr>"
        "Some \<lparr>Bucket = 0, Major = ''A'', Minor = []\<rparr>"
        "Some \<lparr>Bucket = 0, Major = ''B'', Minor = []\<rparr>"
        "\<lparr>Bucket = 0, Major = ''B'', Minor = []\<rparr>" 2] mr
    by (simp add: MaxMultiRank_def prev_or_default_def next_or_default_def)
  show ?thesis using a b c mr by simp
qed

text \<open>
  Claim C4 as stated, for every call with equal majors, fails: with a batch size above
  \<open>MaxMultiRank\<close> the size check returns no ranks and a false flag before the bounds
  are looked at, so the minor-value path is not taken and nothing aborts.
\<close>

theorem oversized_batch_with_equal_majors_returns_flag:
  "\<forall>fuel. Ranks fuel 62 (Some \<lparr>Bucket = 0, Major = ''A'', Minor = '':1''\<rparr>)
                         (Some \<lparr>Bucket = 0, Major = ''A'', Minor = '':2''\<rparr>)
          = Some (Inr ([], False))"
  by (simp add: Ranks_def MaxMultiRank_def)

section \<open>The shape of the generated majors\<close>




section \<open>The external format\<close>

lemma colon_not_class: "\<not> class_09az CHR '':''"
  by (simp add: class_09az_def)

lemma takeWhile_major:
  assumes "list_all class_09az ma"
      and "mi = [] \<or> (\<exists>t. mi = CHR '':'' # t)"
  shows "takeWhile class_09az (ma @ mi) = ma" and "dropWhile class_09az (ma @ mi) = mi"
proof -
  have all: "\<And>x. x \<in> set ma \<Longrightarrow> class_09az x"
    using assms(1) by (simp add: list_all_iff)
  have tw: "takeWhile class_09az mi = []" and dw: "dropWhile class_09az mi = mi"
    using assms(2) by (auto simp: colon_not_class)
  show "takeWhile class_09az (ma @ mi) = ma"
    using all tw by (simp add: takeWhile_append2)
  show "dropWhile class_09az (ma @ mi) = mi"
    using all dw by (simp add: dropWhile_append2)
qed

lemma format_d_bucket:
  "format_d 0 = ''0''" "format_d 1 = ''1''" "format_d 2 = ''2''"
  by code_simp+

lemma submatch_formatted:
  assumes "d = CHR ''0'' \<or> d = CHR ''1'' \<or> d = CHR ''2''"
      and "ma \<noteq> []" and "list_all class_09az ma"
      and "mi = [] \<or> (\<exists>t. mi = CHR '':'' # t \<and> list_all class_09az t)"
  shows "jiraRank_FindStringSubmatch (d # CHR ''|'' # ma @ mi)
         = Some [d # CHR ''|'' # ma @ mi, [d], ma, mi]"
proof -
  have mi': "mi = [] \<or> (\<exists>t. mi = CHR '':'' # t)" using assms(4) by auto
  note tw = takeWhile_major[OF assms(3) mi']
  show ?thesis
    unfolding jiraRank_FindStringSubmatch_def Let_def list.case tw
    using assms(1,2,4) by auto
qed

text \<open>
  Claim C6, as amended. For every Position whose bucket is 0, 1 or 2, whose major is
  one or more characters of \<open>[0-9a-z]\<close> and whose minor is empty or \<open>:\<close> followed by
  characters of \<open>[0-9a-z]\<close>, parsing the formatted text succeeds and returns the
  Position unchanged.
\<close>

theorem parse_format_round_trip:
  assumes "Bucket p = 0 \<or> Bucket p = 1 \<or> Bucket p = 2"
      and "Major p \<noteq> []" and "list_all class_09az (Major p)"
      and "Minor p = [] \<or> (\<exists>t. Minor p = CHR '':'' # t \<and> list_all class_09az t)"
  shows "ParseJira (Posn_String p) = (p, True)"
proof -
  from assms(1) consider "Bucket p = 0" | "Bucket p = 1" | "Bucket p = 2" by blast
  then show ?thesis
  proof cases
    case 1
    then show ?thesis
      using submatch_formatted[of "CHR ''0''" "Major p" "Minor p", OF _ assms(2,3,4)]
      by (simp add: ParseJira_def Posn_String_def format_d_bucket)
  next
    case 2
    then show ?thesis
      using submatch_formatted[of "CHR ''1''" "Major p" "Minor p", OF _ assms(2,3,4)]
      by (simp add: ParseJira_def Posn_String_def format_d_bucket)
  next
    case 3
    then show ?thesis
      using submatch_formatted[of "CHR ''2''" "Major p" "Minor p", OF _ assms(2,3,4)]
      by (simp add: ParseJira_def Posn_String_def format_d_bucket)
  qed
qed

text \<open>The round trip at two Positions, with and without a minor.\<close>

theorem parse_format_round_trip_witness:
  "ParseJira (Posn_String \<lparr>Bucket = 2, Major = ''0i9z'', Minor = '':a7''\<rparr>)
     = (\<lparr>Bucket = 2, Major = ''0i9z'', Minor = '':a7''\<rparr>, True)
   \<and> ParseJira (Posn_String \<lparr>Bucket = 0, Major = ''k'', Minor = []\<rparr>)
     = (\<lparr>Bucket = 0, Major = ''k'', Minor = []\<rparr>, True)"
  using parse_format_round_trip[of "\<lparr>Bucket = 2, Major = ''0i9z'', Minor = '':a7''\<rparr>"]
        parse_format_round_trip[of "\<lparr>Bucket = 0, Major = ''k'', Minor = []\<rparr>"]
  by (simp add: class_09az_def)

text \<open>
  Claim C6 as stated fails: \<open>A\<close> is a symbol of the 62-symbol alphabet, the Position
  \<open>0|A\<close> is formatted as \<open>"0|A"\<close>, and the expression of \<open>ParseJira\<close>, whose
  classes are \<open>[0-9a-z]\<close>, rejects it.
\<close>

theorem uppercase_major_does_not_parse:
  "alphabet CHR ''A''
   \<and> Posn_String \<lparr>Bucket = 0, Major = ''A'', Minor = []\<rparr> = ''0|A''
   \<and> ParseJira (Posn_String \<lparr>Bucket = 0, Major = ''A'', Minor = []\<rparr>)
      = (\<lparr>Bucket = 0, Major = [], Minor = []\<rparr>, False)"
  by code_simp

section \<open>The divergence step\<close>

text \<open>
  Claim C7, as amended. At an index \<open>i\<close>, within both majors, where the characters
  differ and no interior symbol fits, the splitter computes
  \<open>spaceAfterPrev = 61 - order(lower major's character at i + 1, default '0')\<close> and
  \<open>spaceBeforeNext = order(upper major's character at i + 1, default 'z')\<close>. When
  \<open>spaceAfterPrev > spaceBeforeNext\<close> it is the upper bound that is rewritten: its
  major is cut at \<open>i\<close> and the lower bound's character is appended (as \<open>string(c)\<close>,
  the character itself when it is ASCII). Otherwise (also on a tie) the lower bound is
  rewritten in the same way with the upper bound's character. So the bound with less
  capacity is rewritten. The chosen character is appended to \<open>rank\<close> and the scan
  continues at \<open>i + 1\<close>. For the majors \<open>"005z"\<close> and
  \<open>"006b"\<close> and every batch size from 1 to 36, generation succeeds within four
  iterations and every major returned is \<open>"006"\<close> plus one of the symbols that \<open>mids\<close>
  finds between \<open>'0'\<close> and \<open>'b'\<close>, so it starts with \<open>"00"\<close>.
\<close>

theorem divergence_step_rewrites_tighter_bound:
  assumes "prevChar = getChar (Major prev) i minChar"
      and "nextChar = getChar (Major next) i maxChar"
      and "prevChar \<noteq> nextChar"
      and "mids n prevChar nextChar = Inr None"
      and "i \<le> length (Major prev)" and "i \<le> length (Major next)"
      and "spaceAfterPrev = 61 - uint (under_byteToOrder (getChar (Major prev) (i + 1) minChar))"
      and "spaceBeforeNext = uint (under_byteToOrder (getChar (Major next) (i + 1) maxChar))"
  shows "majorStep n L prev next rank i =
           (if spaceAfterPrev > spaceBeforeNext
            then Continue prev
                   (next\<lparr>Major := take i (Major next) @ string_of_byte prevChar\<rparr>)
                   (rank @ string_of_byte prevChar) (i + 1)
            else Continue
                   (prev\<lparr>Major := take i (Major prev) @ string_of_byte nextChar\<rparr>) next
                   (rank @ string_of_byte nextChar) (i + 1))
       \<and> (1 \<le> N \<and> N \<le> 36 \<longrightarrow>
           (\<exists>cs. mids N CHR ''0'' CHR ''b'' = Inr (Some cs) \<and>
              Ranks (Suc (Suc (Suc (Suc f)))) N
                (Some \<lparr>Bucket = b1, Major = ''005z'', Minor = m1\<rparr>)
                (Some \<lparr>Bucket = b2, Major = ''006b'', Minor = m2\<rparr>)
              = Some (Inr (map (\<lambda>mid. \<lparr>Bucket = b1, Major = ''006'' @ [mid],
                                         Minor = '':''\<rparr>) cs, True))))"
proof -
  have step: "majorStep n L prev next rank i =
           (if spaceAfterPrev > spaceBeforeNext
            then Continue prev
                   (next\<lparr>Major := take i (Major next) @ string_of_byte prevChar\<rparr>)
                   (rank @ string_of_byte prevChar) (i + 1)
            else Continue
                   (prev\<lparr>Major := take i (Major prev) @ string_of_byte nextChar\<rparr>) next
                   (rank @ string_of_byte nextChar) (i + 1))"
    using assms(3,4,5,6) unfolding assms(1,2,7,8)
    by (simp add: majorStep_no_room)
  have run: "1 \<le> N \<and> N \<le> 36 \<longrightarrow>
           (\<exists>cs. mids N CHR ''0'' CHR ''b'' = Inr (Some cs) \<and>
              Ranks (Suc (Suc (Suc (Suc f)))) N
                (Some \<lparr>Bucket = b1, Major = ''005z'', Minor = m1\<rparr>)
                (Some \<lparr>Bucket = b2, Major = ''006b'', Minor = m2\<rparr>)
              = Some (Inr (map (\<lambda>mid. \<lparr>Bucket = b1, Major = ''006'' @ [mid],
                                         Minor = '':''\<rparr>) cs, True)))"
  proof
    assume N: "1 \<le> N \<and> N \<le> 36"
    have m56: "mids N CHR ''5'' CHR ''6'' = Inr None"
      using N by (intro mids_no_room) (simp_all add: under_byteToOrder_def)
    obtain cs where m0b: "mids N CHR ''0'' CHR ''b'' = Inr (Some cs)"
      using mids_room[of N "CHR ''0''" "CHR ''b''"] N
      by (auto simp: under_byteToOrder_def)
    have "\<not> N > 61" using N by simp
    moreover have "\<forall>x\<in>set cs. of_char x < (128::nat)"
      using mids_ascii[OF m0b] by (simp add: list_all_iff is_ascii_def)
    ultimately have "Ranks (Suc (Suc (Suc (Suc f)))) N
                (Some \<lparr>Bucket = b1, Major = ''005z'', Minor = m1\<rparr>)
                (Some \<lparr>Bucket = b2, Major = ''006b'', Minor = m2\<rparr>)
              = Some (Inr (map (\<lambda>mid. \<lparr>Bucket = b1, Major = ''006'' @ [mid],
                                         Minor = '':''\<rparr>) cs, True))"
      by (simp add: eval_defs Let_def m56 m0b byteToOrder_total under_byteToOrder_def
          slice_to_def trailer_def)
    then show "\<exists>cs. mids N CHR ''0'' CHR ''b'' = Inr (Some cs) \<and>
              Ranks (Suc (Suc (Suc (Suc f)))) N
                (Some \<lparr>Bucket = b1, Major = ''005z'', Minor = m1\<rparr>)
                (Some \<lparr>Bucket = b2, Major = ''006b'', Minor = m2\<rparr>)
              = Some (Inr (map (\<lambda>mid. \<lparr>Bucket = b1, Major = ''006'' @ [mid],
                                         Minor = '':''\<rparr>) cs, True))"
      using m0b by blast
  qed
  show ?thesis using step run by blast
qed

text \<open>
  The step at index 2 of \<open>"005z"\<close> and \<open>"006b"\<close> (capacities 0 and 37: the lower
  bound is rewritten) and of \<open>"0050"\<close> and \<open>"0060"\<close> (capacities 61 and 0: the upper
  bound is rewritten), and the whole run for N = 1 and N = 2.
\<close>

theorem divergence_step_rewrites_tighter_bound_witness:
  "majorStep 1 4 \<lparr>Bucket = 0, Major = ''005z'', Minor = []\<rparr>
                 \<lparr>Bucket = 0, Major = ''006b'', Minor = []\<rparr> ''00'' 2
     = Continue \<lparr>Bucket = 0, Major = ''006'', Minor = []\<rparr>
                \<lparr>Bucket = 0, Major = ''006b'', Minor = []\<rparr> ''006'' 3
   \<and> majorStep 1 4 \<lparr>Bucket = 0, Major = ''0050'', Minor = []\<rparr>
                   \<lparr>Bucket = 0, Major = ''0060'', Minor = []\<rparr> ''00'' 2
     = Continue \<lparr>Bucket = 0, Major = ''0050'', Minor = []\<rparr>
                \<lparr>Bucket = 0, Major = ''005'', Minor = []\<rparr> ''005'' 3
   \<and> Ranks 4 1 (Some \<lparr>Bucket = 0, Major = ''005z'', Minor = []\<rparr>)
               (Some \<lparr>Bucket = 0, Major = ''006b'', Minor = []\<rparr>)
     = Some (Inr ([\<lparr>Bucket = 0, Major = ''006I'', Minor = '':''\<rparr>], True))
   \<and> Ranks 4 2 (Some \<lparr>Bucket = 0, Major = ''005z'', Minor = []\<rparr>)
               (Some \<lparr>Bucket = 0, Major = ''006b'', Minor = []\<rparr>)
     = Some (Inr ([\<lparr>Bucket = 0, Major = ''006C'', Minor = '':''\<rparr>,
                   \<lparr>Bucket = 0, Major = ''006O'', Minor = '':''\<rparr>], True))"
proof -
  have m1: "mids 1 CHR ''0'' CHR ''b'' = Inr (Some ''I'')" by code_simp
  have m2: "mids 2 CHR ''0'' CHR ''b'' = Inr (Some ''CO'')" by code_simp
  have a: "majorStep 1 4 \<lparr>Bucket = 0, Major = ''005z'', Minor = []\<rparr>
                 \<lparr>Bucket = 0, Major = ''006b'', Minor = []\<rparr> ''00'' 2
     = Continue \<lparr>Bucket = 0, Major = ''006'', Minor = []\<rparr>
                \<lparr>Bucket = 0, Major = ''006b'', Minor = []\<rparr> ''006'' 3"
    using divergence_step_rewrites_tighter_bound[where prevChar = "CHR ''5''"
        and prev = "\<lparr>Bucket = 0, Major = ''005z'', Minor = []\<rparr>" and i = 2
        and nextChar = "CHR ''6''"
        and ?next = "\<lparr>Bucket = 0, Major = ''006b'', Minor = []\<rparr>" and n = 1
        and spaceAfterPrev = 0 and spaceBeforeNext = 37 and L = 4 and rank = "''00''"]
    by (simp add: getChar_def mids_1_5_6 under_byteToOrder_def string_of_byte_def)
  have b: "majorStep 1 4 \<lparr>Bucket = 0, Major = ''0050'', Minor = []\<rparr>
                   \<lparr>Bucket = 0, Major = ''0060'', Minor = []\<rparr> ''00'' 2
     = Continue \<lparr>Bucket = 0, Major = ''0050'', Minor = []\<rparr>
                \<lparr>Bucket = 0, Major = ''005'', Minor = []\<rparr> ''005'' 3"
    using divergence_step_rewrites_tighter_bound[where prevChar = "CHR ''5''"
        and prev = "\<lparr>Bucket = 0, Major = ''0050'', Minor = []\<rparr>" and i = 2
        and nextChar = "CHR ''6''"
        and ?next = "\<lparr>Bucket = 0, Major = ''0060'', Minor = []\<rparr>" and n = 1
        and spaceAfterPrev = 61 and spaceBeforeNext = 0 and L = 4 and rank = "''00''"]
    by (simp add: getChar_def mids_1_5_6 under_byteToOrder_def string_of_byte_def)
  have pre: "getChar (Major \<lparr>Bucket = (0::byte), Major = ''005z'', Minor = []\<rparr>) 2 minChar
               = CHR ''5''"
      "getChar (Major \<lparr>Bucket = (0::byte), Major = ''006b'', Minor = []\<rparr>) 2 maxChar = CHR ''6''"
      "(0::int) = 61 - uint (under_byteToOrder
          (getChar (Major \<lparr>Bucket = (0::byte), Major = ''005z'', Minor = []\<rparr>) (2 + 1) minChar))"
      "(37::int) = uint (under_byteToOrder
          (getChar (Major \<lparr>Bucket = (0::byte), Major = ''006b'', Minor = []\<rparr>) (2 + 1) maxChar))"
    by (simp_all add: getChar_def under_byteToOrder_def)
  have run: "\<And>N. 1 \<le> N \<and> N \<le> 36 \<longrightarrow>
           (\<exists>cs. mids N CHR ''0'' CHR ''b'' = Inr (Some cs) \<and>
              Ranks 4 N
                (Some \<lparr>Bucket = 0, Major = ''005z'', Minor = []\<rparr>)
                (Some \<lparr>Bucket = 0, Major = ''006b'', Minor = []\<rparr>)
              = Some (Inr (map (\<lambda>mid. \<lparr>Bucket = 0, Major = ''006'' @ [mid],
                                         Minor = '':''\<rparr>) cs, True)))"
    using divergence_step_rewrites_tighter_bound[where prevChar = "CHR ''5''"
        and prev = "\<lparr>Bucket = 0, Major = ''005z'', Minor = []\<rparr>" and i = 2
        and nextChar = "CHR ''6''"
        and ?next = "\<lparr>Bucket = 0, Major = ''006b'', Minor = []\<rparr>" and n = 1
        and spaceAfterPrev = 0 and spaceBeforeNext = 37 and f = 0 and ?b1.0 = 0 and ?b2.0 = 0
        and ?m1.0 = "[]" and ?m2.0 = "[]",
        OF pre(1)[symmetric] pre(2)[symmetric] _ _ _ _ pre(3) pre(4)]
    by (simp add: mids_1_5_6 eval_nat_numeral)
  have c: "Ranks 4 1 (Some \<lparr>Bucket = 0, Major = ''005z'', Minor = []\<rparr>)
               (Some \<lparr>Bucket = 0, Major = ''006b'', Minor = []\<rparr>)
     = Some (Inr ([\<lparr>Bucket = 0, Major = ''006I'', Minor = '':''\<rparr>], True))"
    using run[of 1] m1 by simp
  have d: "Ranks 4 2 (Some \<lparr>Bucket = 0, Major = ''005z'', Minor = []\<rparr>)
               (Some \<lparr>Bucket = 0, Major = ''006b'', Minor = []\<rparr>)
     = Some (Inr ([\<lparr>Bucket = 0, Major = ''006C'', Minor = '':''\<rparr>,
                   \<lparr>Bucket = 0, Major = ''006O'', Minor = '':''\<rparr>], True))"
    using run[of 2] m2 by simp
  show ?thesis using a b c d by simp
qed

text \<open>
  Claim C7 as stated fails: at index 2 of \<open>"005z"\<close> and \<open>"006b"\<close> the lower bound has
  capacity \<open>61 - order('z') = 0\<close> and the upper bound has capacity \<open>order('b') = 37\<close>;
  the bound with more capacity, the upper one, is kept, and the lower bound is
  rewritten to \<open>"006"\<close>.
\<close>

theorem bound_with_more_capacity_is_kept:
  "61 - uint (under_byteToOrder (getChar ''005z'' 3 minChar)) = 0
   \<and> uint (under_byteToOrder (getChar ''006b'' 3 maxChar)) = 37
   \<and> majorStep 1 4 \<lparr>Bucket = 0, Major = ''005z'', Minor = []\<rparr>
                   \<lparr>Bucket = 0, Major = ''006b'', Minor = []\<rparr> ''00'' 2
     = Continue \<lparr>Bucket = 0, Major = ''006'', Minor = []\<rparr>
                \<lparr>Bucket = 0, Major = ''006b'', Minor = []\<rparr> ''006'' 3"
  by code_simp

section \<open>Concrete scenarios\<close>

text \<open>
  Claim C8. With lower major \<open>"0"\<close> and upper major \<open>"z"\<close>, whatever the buckets and
  minors, one iteration is enough: for N = 1 the single rank has major \<open>"U"\<close> (ordinal
  30), for N = 3 the majors are \<open>"F"\<close>, \<open>"U"\<close>, \<open>"j"\<close> (ordinals 15, 30, 45), in this
  order. Both source files agree. In general, when \<open>mids\<close> succeeds, its symbol number
  \<open>j + 1\<close> (counting from 1) is the symbol of \<open>orderToByte\<close> at the ordinal
  \<open>order(prev) + spacing * (j + 1)\<close>, where the spacing is the byte difference
  \<open>order(next) - order(prev)\<close> divided by \<open>n + 1\<close>.
\<close>

theorem scenario_0_z_majors:
  "Ranks (Suc fuel) 1
      (Some \<lparr>Bucket = b1, Major = ''0'', Minor = m1\<rparr>)
      (Some \<lparr>Bucket = b2, Major = ''z'', Minor = m2\<rparr>) =
    Some (Inr ([\<lparr>Bucket = b1, Major = ''U'', Minor = '':''\<rparr>], True))
  \<and> Ranks (Suc fuel) 3
      (Some \<lparr>Bucket = b1, Major = ''0'', Minor = m1\<rparr>)
      (Some \<lparr>Bucket = b2, Major = ''z'', Minor = m2\<rparr>) =
    Some (Inr ([\<lparr>Bucket = b1, Major = ''F'', Minor = '':''\<rparr>,
                \<lparr>Bucket = b1, Major = ''U'', Minor = '':''\<rparr>,
                \<lparr>Bucket = b1, Major = ''j'', Minor = '':''\<rparr>], True))
  \<and> simple_Ranks (Suc fuel) 1 ''0'' ''z'' = Some (Inr ([''U''], True))
  \<and> simple_Ranks (Suc fuel) 3 ''0'' ''z'' = Some (Inr ([''F'', ''U'', ''j''], True))
  \<and> (mids n a b = Inr (Some cs) \<and> j < nat n \<longrightarrow>
       length cs = nat n \<and>
       orderToByte_at (uint (under_byteToOrder a)
          + (uint (under_byteToOrder b - under_byteToOrder a) sdiv (n + 1)) * (int j + 1))
       = Inr (cs ! j))"
proof -
  have "Ranks (Suc fuel) 1
      (Some \<lparr>Bucket = b1, Major = ''0'', Minor = m1\<rparr>)
      (Some \<lparr>Bucket = b2, Major = ''z'', Minor = m2\<rparr>) =
    Some (Inr ([\<lparr>Bucket = b1, Major = ''U'', Minor = '':''\<rparr>], True))"
    by (simp add: eval_defs mids_1_0_z slice_trailer_0)
  moreover have "Ranks (Suc fuel) 3
      (Some \<lparr>Bucket = b1, Major = ''0'', Minor = m1\<rparr>)
      (Some \<lparr>Bucket = b2, Major = ''z'', Minor = m2\<rparr>) =
    Some (Inr ([\<lparr>Bucket = b1, Major = ''F'', Minor = '':''\<rparr>,
                \<lparr>Bucket = b1, Major = ''U'', Minor = '':''\<rparr>,
                \<lparr>Bucket = b1, Major = ''j'', Minor = '':''\<rparr>], True))"
    by (simp add: eval_defs mids_3_0_z slice_trailer_0)
  moreover have "simple_Ranks (Suc fuel) 1 ''0'' ''z'' = Some (Inr ([''U''], True))"
    by (simp add: simple_Ranks_def MaxMultiRank_def getChar_def minChar_def maxChar_def
        simple_mids_eq mids_1_0_z string_of_byte_def)
  moreover have "simple_Ranks (Suc fuel) 3 ''0'' ''z'' = Some (Inr ([''F'', ''U'', ''j''], True))"
    by (simp add: simple_Ranks_def MaxMultiRank_def getChar_def minChar_def maxChar_def
        simple_mids_eq mids_3_0_z string_of_byte_def)
  moreover have "mids n a b = Inr (Some cs) \<and> j < nat n \<longrightarrow>
       length cs = nat n \<and>
       orderToByte_at (uint (under_byteToOrder a)
          + (uint (under_byteToOrder b - under_byteToOrder a) sdiv (n + 1)) * (int j + 1))
       = Inr (cs ! j)"
    using mids_length[of n a b cs] mids_nth[of n a b cs j] by blast
  ultimately show ?thesis by blast
qed

text \<open>The third of the three symbols between \<open>'0'\<close> and \<open>'z'\<close> is at ordinal 45.\<close>

theorem scenario_0_z_majors_witness:
  "mids 3 CHR ''0'' CHR ''z'' = Inr (Some ''FUj'')
   \<and> orderToByte_at (uint (under_byteToOrder CHR ''0'')
        + (uint (under_byteToOrder CHR ''z'' - under_byteToOrder CHR ''0'') sdiv (3 + 1))
          * (int 2 + 1)) = Inr (''FUj'' ! 2)
   \<and> orderToByte_at 45 = Inr CHR ''j''"
proof -
  have m: "mids 3 CHR ''0'' CHR ''z'' = Inr (Some ''FUj'')" by (rule mids_3_0_z)
  have "orderToByte_at 45 = Inr CHR ''j''" by code_simp
  then show ?thesis
    using scenario_0_z_majors[where n = 3 and a = "CHR ''0''" and b = "CHR ''z''"
        and cs = "''FUj''" and j = 2] m
    by simp
qed



section \<open>The filler is eight symbols long\<close>

text \<open>
  Running the loop for \<open>k\<close> continuing iterations and then for \<open>m\<close> more is running it
  from the state reached after \<open>k\<close>.
\<close>

lemma majorLoop_after_iterations:
  "majorIterate k n L prev next rank i = Some (prev', next', rank', i') \<Longrightarrow>
   majorLoop (k + m) n L prev next rank i = majorLoop m n L prev' next' rank' i'"
proof (induction k arbitrary: prev "next" rank i)
  case 0
  then show ?case by simp
next
  case (Suc k)
  then show ?case by (cases "majorStep n L prev next rank i") simp_all
qed

lemma majorStep_room_far_from_end:
  assumes "mids n (getChar (Major prev) i minChar) (getChar (Major next) i maxChar) = Inr (Some cs)"
      and "8 < int L - 1 - int (length rank)"
  shows "majorStep n L prev next rank i = Return (Inl SliceOutOfRange)"
proof -
  have ne: "getChar (Major prev) i minChar \<noteq> getChar (Major next) i maxChar"
    using assms(1) mids_same by fastforce
  have "length rank \<noteq> L" using assms(2) by auto
  then show ?thesis
    using ne assms by (simp add: majorStep_def slice_trailer_long)
qed

text \<open>
  The instance where room is found at the first index where the two majors differ,
  after a common ASCII prefix \<open>p\<close>: no iteration has rewritten a bound before.
\<close>

lemma first_difference_far_from_end_panics:
  assumes "mids n a b = Inr (Some cs)"
      and "n \<le> MaxMultiRank"
      and "list_all is_ascii p"
      and "8 < int (max (length (p @ a # s1)) (length (p @ b # s2))) - 1 - int (length p)"
  shows "Ranks (length p + Suc f) n
           (Some \<lparr>Bucket = b1, Major = p @ a # s1, Minor = m1\<rparr>)
           (Some \<lparr>Bucket = b2, Major = p @ b # s2, Minor = m2\<rparr>)
         = Some (Inl SliceOutOfRange)"
proof -
  let ?prev = "\<lparr>Bucket = b1, Major = p @ a # s1, Minor = m1\<rparr>"
  let ?next = "\<lparr>Bucket = b2, Major = p @ b # s2, Minor = m2\<rparr>"
  let ?L = "max (length (p @ a # s1)) (length (p @ b # s2))"
  have ab: "a \<noteq> b" using assms(1) mids_same by blast
  have step: "majorStep n ?L ?prev ?next p (length p) = Return (Inl SliceOutOfRange)"
    using ab assms(1,4)
    by (simp add: majorStep_def getChar_at_prefix_end slice_trailer_long)
  have "majorRanks (length p + Suc f) n ?prev ?next
        = majorLoop (Suc f) n ?L ?prev ?next p (length p)"
    unfolding majorRanks_def
    using majorLoop_common_prefix[of ?prev p "a # s1" ?next "b # s2" "Suc f" n ?L] assms(3)
    by simp
  also have "\<dots> = Some (Inl SliceOutOfRange)"
    using step by simp
  finally have "majorRanks (length p + Suc f) n ?prev ?next = Some (Inl SliceOutOfRange)" .
  then show ?thesis
    using ab assms(2) by (simp add: Ranks_def prev_or_default_def next_or_default_def)
qed

text \<open>
  Claim C10. Whenever an iteration of the loop finds room (\<open>mids\<close> succeeds on the two
  characters at the index \<open>i\<close>) with \<open>majorLen - 1 - len(rank) > 8\<close>, where \<open>rank\<close> is the
  prefix built so far, slicing the 8-symbol \<open>trailer\<close> panics: the iteration, and the
  loop from there, return neither ranks nor a failure flag. This holds in every state
  of the loop, also after iterations that rewrote a bound. A call of \<open>Ranks\<close> that
  passes the size check, has two different majors, and reaches such a state after \<open>k\<close>
  iterations panics with the slice error, for every fuel above \<open>k\<close>.
\<close>

theorem room_found_far_from_end_panics:
  assumes "mids n (getChar (Major prev') i minChar) (getChar (Major next') i maxChar)
           = Inr (Some cs)"
      and "8 < int L - 1 - int (length rank)"
  shows "majorStep n L prev' next' rank i = Return (Inl SliceOutOfRange)
         \<and> majorLoop (Suc f) n L prev' next' rank i = Some (Inl SliceOutOfRange)
         \<and> (n \<le> MaxMultiRank
              \<and> prev1 = prev_or_default prev next
              \<and> next1 = next_or_default prev1 next
              \<and> Major prev1 \<noteq> Major next1
              \<and> L = max (length (Major prev1)) (length (Major next1))
              \<and> majorIterate k n L prev1 next1 [] 0 = Some (prev', next', rank, i)
            \<longrightarrow> Ranks (k + Suc f) n prev next = Some (Inl SliceOutOfRange))"
proof -
  have step: "majorStep n L prev' next' rank i = Return (Inl SliceOutOfRange)"
    using assms by (rule majorStep_room_far_from_end)
  then have loop: "majorLoop (Suc f) n L prev' next' rank i = Some (Inl SliceOutOfRange)"
    by simp
  have "Ranks (k + Suc f) n prev next = Some (Inl SliceOutOfRange)"
    if c: "n \<le> MaxMultiRank" "prev1 = prev_or_default prev next"
          "next1 = next_or_default prev1 next" "Major prev1 \<noteq> Major next1"
          "L = max (length (Major prev1)) (length (Major next1))"
          "majorIterate k n L prev1 next1 [] 0 = Some (prev', next', rank, i)"
  proof -
    have "majorRanks (k + Suc f) n prev1 next1 = majorLoop (Suc f) n L prev' next' rank i"
      unfolding majorRanks_def c(5)[symmetric]
      using c(6) by (rule majorLoop_after_iterations)
    then have "majorRanks (k + Suc f) n prev1 next1 = Some (Inl SliceOutOfRange)"
      using loop by simp
    then show ?thesis
      using c(1,2,3,4) by (simp add: Ranks_def Let_def)
  qed
  then show ?thesis using step loop by blast
qed

text \<open>
  Both majors of length 10, differing at their first character, N = 1: room is found
  in the first iteration. The majors \<open>"A0000000000"\<close> and \<open>"B0000000000"\<close>, N = 1: the
  first iteration finds no room and rewrites the upper bound to \<open>"A"\<close>, the second finds
  room between \<open>'0'\<close> and the default \<open>'z'\<close> with nine symbols to fill.
\<close>

theorem room_found_far_from_end_panics_witness:
  "Ranks 1 1 (Some \<lparr>Bucket = 0, Major = ''0000000000'', Minor = []\<rparr>)
             (Some \<lparr>Bucket = 0, Major = ''zzzzzzzzzz'', Minor = []\<rparr>)
     = Some (Inl SliceOutOfRange)
   \<and> majorIterate 1 1 11 \<lparr>Bucket = 0, Major = ''A0000000000'', Minor = []\<rparr>
                          \<lparr>Bucket = 0, Major = ''B0000000000'', Minor = []\<rparr> [] 0
     = Some (\<lparr>Bucket = 0, Major = ''A0000000000'', Minor = []\<rparr>,
             \<lparr>Bucket = 0, Major = ''A'', Minor = []\<rparr>, ''A'', 1)
   \<and> majorStep 1 11 \<lparr>Bucket = 0, Major = ''A0000000000'', Minor = []\<rparr>
                      \<lparr>Bucket = 0, Major = ''A'', Minor = []\<rparr> ''A'' 1
     = Return (Inl SliceOutOfRange)
   \<and> Ranks 2 1 (Some \<lparr>Bucket = 0, Major = ''A0000000000'', Minor = []\<rparr>)
               (Some \<lparr>Bucket = 0, Major = ''B0000000000'', Minor = []\<rparr>)
     = Some (Inl SliceOutOfRange)"
proof -
  have m: "mids 1 CHR ''0'' CHR ''z'' = Inr (Some ''U'')" by (rule mids_1_0_z)
  have a: "Ranks 1 1 (Some \<lparr>Bucket = 0, Major = ''0000000000'', Minor = []\<rparr>)
             (Some \<lparr>Bucket = 0, Major = ''zzzzzzzzzz'', Minor = []\<rparr>)
     = Some (Inl SliceOutOfRange)"
    using room_found_far_from_end_panics[of 1
        "\<lparr>Bucket = 0, Major = ''0000000000'', Minor = []\<rparr>" 0
        "\<lparr>Bucket = 0, Major = ''zzzzzzzzzz'', Minor = []\<rparr>" "''U''" 10 "[]" 0
        "\<lparr>Bucket = 0, Major = ''0000000000'', Minor = []\<rparr>"
        "Some \<lparr>Bucket = 0, Major = ''0000000000'', Minor = []\<rparr>"
        "Some \<lparr>Bucket = 0, Major = ''zzzzzzzzzz'', Minor = []\<rparr>"
        "\<lparr>Bucket = 0, Major = ''zzzzzzzzzz'', Minor = []\<rparr>" 0] m
    by (simp add: MaxMultiRank_def prev_or_default_def next_or_default_def getChar_def
        minChar_def maxChar_def)
  have it: "majorIterate 1 1 11 \<lparr>Bucket = 0, Major = ''A0000000000'', Minor = []\<rparr>
                          \<lparr>Bucket = 0, Major = ''B0000000000'', Minor = []\<rparr> [] 0
     = Some (\<lparr>Bucket = 0, Major = ''A0000000000'', Minor = []\<rparr>,
             \<lparr>Bucket = 0, Major = ''A'', Minor = []\<rparr>, ''A'', 1)"
    by code_simp
  have b: "majorStep 1 11 \<lparr>Bucket = 0, Major = ''A0000000000'', Minor = []\<rparr>
                      \<lparr>Bucket = 0, Major = ''A'', Minor = []\<rparr> ''A'' 1
     = Return (Inl SliceOutOfRange)
   \<and> Ranks 2 1 (Some \<lparr>Bucket = 0, Major = ''A0000000000'', Minor = []\<rparr>)
               (Some \<lparr>Bucket = 0, Major = ''B0000000000'', Minor = []\<rparr>)
     = Some (Inl SliceOutOfRange)"
    using room_found_far_from_end_panics[of 1
        "\<lparr>Bucket = 0, Major = ''A0000000000'', Minor = []\<rparr>" 1
        "\<lparr>Bucket = 0, Major = ''A'', Minor = []\<rparr>" "''U''" 11 "''A''" 0
        "\<lparr>Bucket = 0, Major = ''A0000000000'', Minor = []\<rparr>"
        "Some \<lparr>Bucket = 0, Major = ''A0000000000'', Minor = []\<rparr>"
        "Some \<lparr>Bucket = 0, Major = ''B0000000000'', Minor = []\<rparr>"
        "\<lparr>Bucket = 0, Major = ''B0000000000'', Minor = []\<rparr>" 1] m it
    by (simp add: MaxMultiRank_def prev_or_default_def next_or_default_def getChar_def
        minChar_def maxChar_def numeral_2_eq_2)
  show ?thesis using a b it by simp
qed

end
